theory Spec2Isabelle
  imports Main "HOL-Library.Sublist"
begin

section \<open>Errors\<close>

text \<open>
  Every exception the module can raise is a value. The names are Python's:
  \<open>OverflowError\<close> from date arithmetic, \<open>ValueError\<close> from tuple unpacking and
  from \<open>add_section\<close> on the default section, \<open>IndexError\<close> from list indexing,
  \<open>KeyError\<close> from dictionary lookups, and configparser's \<open>NoSectionError\<close>,
  \<open>NoOptionError\<close> and \<open>DuplicateSectionError\<close>. \<open>SecretError\<close> stands for
  whatever the secret manager client raises.
\<close>

datatype error =
    OverflowError
  | ValueError
  | IndexError
  | KeyError string
  | NoSectionError string
  | NoOptionError string string
  | DuplicateSectionError string
  | SecretError string

section \<open>Calendar dates\<close>

text \<open>
  \<open>datetime.date\<close> of the standard library: a year, a month and a day of the proleptic
  Gregorian calendar, with \<open>1 \<le> year \<le> 9999\<close>. The arithmetic follows CPython's
  implementation of the type (\<open>is_leap\<close>, \<open>days_in_month\<close>, \<open>days_before_month\<close>,
  \<open>days_before_year\<close>, \<open>ymd_to_ord\<close>, \<open>ord_to_ymd\<close>, \<open>normalize_y_m_d\<close>,
  \<open>add_date_timedelta\<close>).
\<close>

record date =
  year :: int
  month :: int
  day :: int

definition MINYEAR :: int where
  "MINYEAR = 1"

definition MAXYEAR :: int where
  "MAXYEAR = 9999"

definition MAXORDINAL :: int where
  "MAXORDINAL = 3652059"

definition is_leap :: "int \<Rightarrow> bool" where
  "is_leap y = (y mod 4 = 0 \<and> (y mod 100 \<noteq> 0 \<or> y mod 400 = 0))"

definition days_in_month_table :: "int list" where
  "days_in_month_table = [0, 31, 28, 31, 30, 31, 30, 31, 31, 30, 31, 30, 31]"

definition days_before_month_table :: "int list" where
  "days_before_month_table = [0, 0, 31, 59, 90, 120, 151, 181, 212, 243, 273, 304, 334]"

definition days_in_month :: "int \<Rightarrow> int \<Rightarrow> int" where
  "days_in_month y m =
     (if m = 2 \<and> is_leap y then 29 else days_in_month_table ! nat m)"

definition days_before_month :: "int \<Rightarrow> int \<Rightarrow> int" where
  "days_before_month y m =
     days_before_month_table ! nat m + (if m > 2 \<and> is_leap y then 1 else 0)"

definition days_before_year :: "int \<Rightarrow> int" where
  "days_before_year y =
     (let p = y - 1 in p * 365 + p div 4 - p div 100 + p div 400)"

definition ymd_to_ord :: "int \<Rightarrow> int \<Rightarrow> int \<Rightarrow> int" where
  "ymd_to_ord y m d = days_before_year y + days_before_month y m + d"

definition toordinal :: "date \<Rightarrow> int" where
  "toordinal dt = ymd_to_ord (year dt) (month dt) (day dt)"

definition DI4Y :: int where
  "DI4Y = 1461"

definition DI100Y :: int where
  "DI100Y = 36524"

definition DI400Y :: int where
  "DI400Y = 146097"

definition ord_to_ymd :: "int \<Rightarrow> date" where
  "ord_to_ymd ordinal =
     (let o1 = ordinal - 1;
          n400 = o1 div DI400Y;
          r400 = o1 mod DI400Y;
          n100 = r400 div DI100Y;
          r100 = r400 mod DI100Y;
          n4 = r100 div DI4Y;
          r4 = r100 mod DI4Y;
          n1 = r4 div 365;
          n = r4 mod 365;
          y = n400 * 400 + 1 + n100 * 100 + n4 * 4 + n1
      in if n1 = 4 \<or> n100 = 4 then \<lparr>year = y - 1, month = 12, day = 31\<rparr>
         else
           (let leapyear = (n1 = 3 \<and> (n4 \<noteq> 24 \<or> n100 = 3));
                m0 = (n + 50) div 32;
                p0 = days_before_month_table ! nat m0 + (if m0 > 2 \<and> leapyear then 1 else 0);
                m = (if p0 > n then m0 - 1 else m0);
                p = (if p0 > n then p0 - days_in_month y m else p0)
            in \<lparr>year = y, month = m, day = n - p + 1\<rparr>))"

text \<open>
  A date object always satisfies \<open>valid_date\<close>: the constructor refuses anything else.
\<close>

definition valid_date :: "date \<Rightarrow> bool" where
  "valid_date dt =
     (MINYEAR \<le> year dt \<and> year dt \<le> MAXYEAR \<and> 1 \<le> month dt \<and> month dt \<le> 12 \<and>
      1 \<le> day dt \<and> day dt \<le> days_in_month (year dt) (month dt))"

text \<open>
  \<open>normalize_y_m_d\<close>: the month is in range and only the day may be out of bounds. One
  day out of range is handled without ordinals; anything else goes through the ordinal
  of the first of the month. A result outside the supported years is an
  \<open>OverflowError\<close>.
\<close>

definition normalize_y_m_d :: "int \<Rightarrow> int \<Rightarrow> int \<Rightarrow> error + date" where
  "normalize_y_m_d y m d =
     (let dim = days_in_month y m in
      if d < 1 \<or> d > dim then
        (if d = 0 then
           (if m - 1 > 0 then
              (if MINYEAR \<le> y \<and> y \<le> MAXYEAR
               then Inr \<lparr>year = y, month = m - 1, day = days_in_month y (m - 1)\<rparr>
               else Inl OverflowError)
            else
              (if MINYEAR \<le> y - 1 \<and> y - 1 \<le> MAXYEAR
               then Inr \<lparr>year = y - 1, month = 12, day = 31\<rparr>
               else Inl OverflowError))
         else if d = dim + 1 then
           (let m' = (if m + 1 > 12 then 1 else m + 1);
                y' = (if m + 1 > 12 then y + 1 else y)
            in if MINYEAR \<le> y' \<and> y' \<le> MAXYEAR
               then Inr \<lparr>year = y', month = m', day = 1\<rparr>
               else Inl OverflowError)
         else
           (let ordinal = ymd_to_ord y m 1 + d - 1 in
            if ordinal < 1 \<or> ordinal > MAXORDINAL then Inl OverflowError
            else Inr (ord_to_ymd ordinal)))
      else if MINYEAR \<le> y \<and> y \<le> MAXYEAR then Inr \<lparr>year = y, month = m, day = d\<rparr>
      else Inl OverflowError)"

text \<open>
  \<open>date - datetime.timedelta(days=k)\<close> is \<open>add_date_timedelta\<close> with the negate flag
  set: the day field is moved by \<open>-k\<close> and the triple normalised.
\<close>

definition add_date_timedelta :: "date \<Rightarrow> int \<Rightarrow> bool \<Rightarrow> error + date" where
  "add_date_timedelta dt deltadays negate =
     normalize_y_m_d (year dt) (month dt)
       (day dt + (if negate then - deltadays else deltadays))"

definition date_sub :: "date \<Rightarrow> int \<Rightarrow> error + date" where
  "date_sub dt deltadays = add_date_timedelta dt deltadays True"

text \<open>\<open>date.replace(day=1)\<close>: the first of a month exists in every month.\<close>

definition replace_day1 :: "date \<Rightarrow> date" where
  "replace_day1 dt = dt\<lparr>day := 1\<rparr>"

subsection \<open>Decimal strings and the ISO form of a date\<close>

definition digit_char :: "nat \<Rightarrow> char" where
  "digit_char n = ''0123456789'' ! n"

text \<open>\<open>str(n)\<close> for a natural number: its decimal digits, most significant first.\<close>

fun str_nat :: "nat \<Rightarrow> string" where
  "str_nat n = (if n < 10 then [digit_char n] else str_nat (n div 10) @ [digit_char (n mod 10)])"

declare str_nat.simps [simp del]

text \<open>The format \<open>%0wd\<close> for a non-negative number: zeros on the left up to width \<open>w\<close>.\<close>

definition zero_pad :: "nat \<Rightarrow> int \<Rightarrow> string" where
  "zero_pad w n = (let s = str_nat (nat n) in replicate (w - length s) CHR ''0'' @ s)"

text \<open>\<open>str(d)\<close> of a date is \<open>isoformat\<close>: \<open>"%04d-%02d-%02d"\<close>.\<close>

definition str_date :: "date \<Rightarrow> string" where
  "str_date dt =
     zero_pad 4 (year dt) @ ''-'' @ zero_pad 2 (month dt) @ ''-'' @ zero_pad 2 (day dt)"

section \<open>The date window\<close>

text \<open>
  \<open>ExecTypes\<close> is the enumeration of execution modes. Its declaration is in
  \<open>utils.py\<close>, so the string each member carries (\<open>.value\<close>) is a parameter \<open>ev\<close> of
  every operation that compares a mode with it.
\<close>

datatype ExecTypes = ERA5 | ERA5T_DAILY | ERA5T_MONTHLY

record MonthDates =
  first_day :: date
  last_day :: date
  sl_year :: string
  sl_month :: string

definition get_month_range :: "date \<Rightarrow> error + (date \<times> date)" where
  "get_month_range dt =
     (case date_sub (replace_day1 dt) 1 of
        Inl e \<Rightarrow> Inl e
      | Inr ld \<Rightarrow> Inr (replace_day1 ld, ld))"

text \<open>
  \<open>datetime.timedelta(days=2*366/12)\<close>: the quotient is the float \<open>61.0\<close>, an exact
  division, so the difference is 61 days.
\<close>

definition era5_delta_days :: int where
  "era5_delta_days = (2 * 366) div 12"

text \<open>
  \<open>get_previous_month_dates\<close>, with \<open>datetime.date.today()\<close> passed in as \<open>today\<close>.
\<close>

definition get_previous_month_dates ::
  "(ExecTypes \<Rightarrow> string) \<Rightarrow> string \<Rightarrow> date \<Rightarrow> error + MonthDates" where
  "get_previous_month_dates ev mode today =
     (case
        (if mode = ev ERA5T_DAILY then
           (case date_sub today 6 of
              Inl e \<Rightarrow> Inl e
            | Inr third_prev_month \<Rightarrow> Inr (third_prev_month, third_prev_month))
         else if mode = ev ERA5T_MONTHLY then get_month_range today
         else
           (case date_sub today era5_delta_days of
              Inl e \<Rightarrow> Inl e
            | Inr third_prev_month \<Rightarrow> get_month_range third_prev_month))
      of
        Inl e \<Rightarrow> Inl e
      | Inr (fd, ld) \<Rightarrow>
          Inr \<lparr>first_day = fd, last_day = ld,
               sl_year = take 4 (str_date fd),
               sl_month = take 2 (drop 5 (str_date fd))\<rparr>)"

section \<open>Strings\<close>

text \<open>
  A string is its list of characters, each a code point below 256. \<open>is_space\<close> is
  \<open>str.isspace\<close> on that range, \<open>strip\<close> is \<open>str.strip()\<close>, and \<open>lower\<close> is
  \<open>str.lower()\<close>.
\<close>

definition is_space :: "char \<Rightarrow> bool" where
  "is_space c =
     (let n = (of_char c :: nat)
      in (9 \<le> n \<and> n \<le> 13) \<or> (28 \<le> n \<and> n \<le> 32) \<or> n = 133 \<or> n = 160)"

definition strip :: "string \<Rightarrow> string" where
  "strip s = rev (dropWhile is_space (rev (dropWhile is_space s)))"

definition lower_char :: "char \<Rightarrow> char" where
  "lower_char c =
     (let n = (of_char c :: nat)
      in if (65 \<le> n \<and> n \<le> 90) \<or> (192 \<le> n \<and> n \<le> 222 \<and> n \<noteq> 215)
         then char_of (n + 32) else c)"

definition lower :: "string \<Rightarrow> string" where
  "lower s = map lower_char s"

definition is_digit :: "char \<Rightarrow> bool" where
  "is_digit c = (let n = (of_char c :: nat) in 48 \<le> n \<and> n \<le> 57)"

text \<open>The operator \<open>sub in s\<close> on strings: \<open>sub\<close> occurs somewhere in \<open>s\<close>.\<close>

fun contains :: "string \<Rightarrow> string \<Rightarrow> bool" where
  "contains sub [] = (sub = [])"
| "contains sub (c # cs) = (prefix sub (c # cs) \<or> contains sub cs)"

text \<open>
  \<open>s.split(sep)\<close> for a non-empty separator: the pieces between the occurrences of
  \<open>sep\<close>, found from the left without overlap. The result is never empty. (Python
  refuses the empty separator; the module only splits on constants.)
\<close>

function split_from :: "string \<Rightarrow> string \<Rightarrow> string \<Rightarrow> string list" where
  "split_from sep acc [] = [acc]"
| "split_from sep acc (c # cs) =
     (if sep \<noteq> [] \<and> prefix sep (c # cs)
      then acc # split_from sep [] (drop (length sep) (c # cs))
      else split_from sep (acc @ [c]) cs)"
  by pat_completeness auto
termination
  by (relation "measure (\<lambda>(sep, acc, s). length s)") auto

definition split_str :: "string \<Rightarrow> string \<Rightarrow> string list" where
  "split_str sep s = split_from sep [] s"

text \<open>\<open>s.replace(old, new)\<close>: every occurrence of \<open>old\<close>, from the left.\<close>

function replace_str :: "string \<Rightarrow> string \<Rightarrow> string \<Rightarrow> string" where
  "replace_str old new [] = (if old = [] then new else [])"
| "replace_str old new (c # cs) =
     (if old = [] then new @ c # replace_str old new cs
      else if prefix old (c # cs)
      then new @ replace_str old new (drop (length old) (c # cs))
      else c # replace_str old new cs)"
  by pat_completeness auto
termination
  by (relation "measure (\<lambda>(old, new, s). length s)") auto

text \<open>\<open>xs[i]\<close> for an index that is not negative.\<close>

definition index :: "'a list \<Rightarrow> nat \<Rightarrow> error + 'a" where
  "index xs i = (if i < length xs then Inr (xs ! i) else Inl IndexError)"

section \<open>Configuration files\<close>

text \<open>
  What \<open>configparser.ConfigParser\<close> holds after reading a file: the options of the
  default section, and the other sections in file order, each with its options in
  order. Both are dictionaries, kept as association lists in insertion order. A file's
  content is this structure: \<open>read\<close> loads it and \<open>write\<close> stores it.
\<close>

type_synonym options = "(string \<times> string) list"

record config =
  defaults :: options
  sections :: "(string \<times> options) list"

definition default_section :: string where
  "default_section = ''DEFAULT''"

text \<open>\<open>d[k] = v\<close>: the value of an existing key is replaced where it stands, a new key
  goes last. \<open>del d[k]\<close> removes the key.\<close>

fun dict_set :: "'k \<Rightarrow> 'v \<Rightarrow> ('k \<times> 'v) list \<Rightarrow> ('k \<times> 'v) list" where
  "dict_set k v [] = [(k, v)]"
| "dict_set k v ((k', v') # kvs) =
     (if k' = k then (k, v) # kvs else (k', v') # dict_set k v kvs)"


text \<open>\<open>optionxform\<close>: option names are stored in lower case.\<close>

definition optionxform :: "string \<Rightarrow> string" where
  "optionxform optionstr = lower optionstr"

definition has_section :: "config \<Rightarrow> string \<Rightarrow> bool" where
  "has_section cfg section = (section \<in> set (map fst (sections cfg)))"

definition add_section :: "config \<Rightarrow> string \<Rightarrow> error + config" where
  "add_section cfg section =
     (if section = default_section then Inl ValueError
      else if has_section cfg section then Inl (DuplicateSectionError section)
      else Inr (cfg\<lparr>sections := sections cfg @ [(section, [])]\<rparr>))"

text \<open>
  \<open>config.set(section, option, value)\<close>. An empty section name or the default
  section's name addresses the defaults; any other section must exist. The parsers of
  this module are built with \<open>interpolation=None\<close> or only remove sections, so no value
  is checked for interpolation syntax.
\<close>

definition config_set :: "config \<Rightarrow> string \<Rightarrow> string \<Rightarrow> string \<Rightarrow> error + config" where
  "config_set cfg section option v =
     (if section = [] \<or> section = default_section
      then Inr (cfg\<lparr>defaults := dict_set (optionxform option) v (defaults cfg)\<rparr>)
      else
        (case map_of (sections cfg) section of
           None \<Rightarrow> Inl (NoSectionError section)
         | Some sectdict \<Rightarrow>
             Inr (cfg\<lparr>sections :=
                    dict_set section (dict_set (optionxform option) v sectdict) (sections cfg)\<rparr>)))"

text \<open>
  \<open>config.get(section, option)\<close>: the section's own options first, then the defaults.
\<close>

definition config_get :: "config \<Rightarrow> string \<Rightarrow> string \<Rightarrow> error + string" where
  "config_get cfg section option =
     (case
        (case map_of (sections cfg) section of
           Some sectdict \<Rightarrow> Inr sectdict
         | None \<Rightarrow> if section \<noteq> default_section then Inl (NoSectionError section) else Inr [])
      of
        Inl e \<Rightarrow> Inl e
      | Inr sectdict \<Rightarrow>
          (case map_of sectdict (optionxform option) of
             Some v \<Rightarrow> Inr v
           | None \<Rightarrow>
               (case map_of (defaults cfg) (optionxform option) of
                  Some v \<Rightarrow> Inr v
                | None \<Rightarrow> Inl (NoOptionError (optionxform option) section))))"


text \<open>
  The files: a path has a content or does not exist. \<open>config.read\<close> of a path that does
  not exist leaves the parser empty.
\<close>

type_synonym files = "string \<Rightarrow> config option"

definition empty_config :: config where
  "empty_config = \<lparr>defaults = [], sections = []\<rparr>"

definition read_config :: "files \<Rightarrow> string \<Rightarrow> config" where
  "read_config fs path = (case fs path of None \<Rightarrow> empty_config | Some cfg \<Rightarrow> cfg)"

definition write_config :: "files \<Rightarrow> string \<Rightarrow> config \<Rightarrow> files" where
  "write_config fs path cfg = fs(path \<mapsto> cfg)"

section \<open>Rewriting one configuration file\<close>

record ConfigArgs = MonthDates +
  year_wise_date :: bool

definition raw_prefix :: string where
  "raw_prefix = ''gs://gcp-public-data-arco-era5/raw''"

text \<open>\<open>if temp_path:\<close> holds for a string that is given and not empty.\<close>

definition set_target_path :: "config \<Rightarrow> string option \<Rightarrow> error + config" where
  "set_target_path cfg temp_path =
     (case temp_path of
        None \<Rightarrow> Inr cfg
      | Some tp \<Rightarrow>
          if tp = [] then Inr cfg
          else
            (case config_get cfg ''parameters'' ''target_path'' of
               Inl e \<Rightarrow> Inl e
             | Inr target_path \<Rightarrow>
                 config_set cfg ''parameters'' ''target_path''
                   (replace_str raw_prefix tp target_path)))"

definition set_selection :: "config \<Rightarrow> string \<Rightarrow> ConfigArgs \<Rightarrow> error + config" where
  "set_selection cfg field_name config_args =
     (if year_wise_date config_args then
        (case config_set cfg ''selection'' ''year'' (sl_year config_args) of
           Inl e \<Rightarrow> Inl e
         | Inr c1 \<Rightarrow>
             (case config_set c1 ''selection'' ''month'' (sl_month config_args) of
                Inl e \<Rightarrow> Inl e
              | Inr c2 \<Rightarrow> config_set c2 ''selection'' ''day'' ''all''))
      else
        config_set cfg ''selection'' field_name
          (str_date (first_day config_args) @ ''/to/'' @ str_date (last_day config_args)))"

text \<open>
  The body of the loop over \<open>sections_list[:-1]\<close>: one block of the additional content
  becomes one new section with two options.
\<close>

definition unpack2 :: "string list \<Rightarrow> error + (string \<times> string)" where
  "unpack2 parts = (case parts of [a, b] \<Rightarrow> Inr (a, b) | _ \<Rightarrow> Inl ValueError)"

definition set_from_line :: "config \<Rightarrow> string \<Rightarrow> string list \<Rightarrow> nat \<Rightarrow> error + config" where
  "set_from_line cfg new_section_name lines i =
     (case index lines i of
        Inl e \<Rightarrow> Inl e
      | Inr line \<Rightarrow>
          (case unpack2 (split_str ''='' line) of
             Inl e \<Rightarrow> Inl e
           | Inr (name, v) \<Rightarrow> config_set cfg new_section_name (strip name) (strip v)))"

definition add_credential_section :: "config \<Rightarrow> string \<Rightarrow> error + config" where
  "add_credential_section cfg section =
     (let lines = split_str ''\<newline>'' section in
      case index lines 0 of
        Inl e \<Rightarrow> Inl e
      | Inr first_line \<Rightarrow>
          (let new_section_name = strip first_line in
           case add_section cfg new_section_name of
             Inl e \<Rightarrow> Inl e
           | Inr c1 \<Rightarrow>
               (case set_from_line c1 new_section_name lines 1 of
                  Inl e \<Rightarrow> Inl e
                | Inr c2 \<Rightarrow> set_from_line c2 new_section_name lines 2)))"

fun add_credential_sections :: "config \<Rightarrow> string list \<Rightarrow> error + config" where
  "add_credential_sections cfg [] = Inr cfg"
| "add_credential_sections cfg (section # rest) =
     (case add_credential_section cfg section of
        Inl e \<Rightarrow> Inl e
      | Inr cfg' \<Rightarrow> add_credential_sections cfg' rest)"

definition append_credentials :: "config \<Rightarrow> string \<Rightarrow> error + config" where
  "append_credentials cfg additional_content =
     add_credential_sections cfg (butlast (split_str ''\<newline>\<newline>'' additional_content))"

text \<open>
  \<open>new_config_file\<close>: the file is read, changed in memory and written last, so an
  exception on the way leaves the file as it was.
\<close>

definition new_config_file ::
  "files \<Rightarrow> string \<Rightarrow> string \<Rightarrow> string \<Rightarrow> ConfigArgs \<Rightarrow> string option \<Rightarrow> error + files" where
  "new_config_file fs config_file field_name additional_content config_args temp_path =
     (case set_target_path (read_config fs config_file) temp_path of
        Inl e \<Rightarrow> Inl e
      | Inr c1 \<Rightarrow>
          (case set_selection c1 field_name config_args of
             Inl e \<Rightarrow> Inl e
           | Inr c2 \<Rightarrow>
               (case append_credentials c2 additional_content of
                  Inl e \<Rightarrow> Inl e
                | Inr c3 \<Rightarrow> Inr (write_config fs config_file c3))))"

section \<open>Credentials\<close>

text \<open>
  The process environment is the list of its variables in iteration order. A name
  matches \<open>^API_KEY_\d+$\<close> when it is \<open>API_KEY_\<close>, one or more digits, and then the end
  of the string or one final newline.
\<close>

definition api_key_pattern_match :: "string \<Rightarrow> bool" where
  "api_key_pattern_match env_var =
     (prefix ''API_KEY_'' env_var \<and>
      (let rest = drop 8 env_var
       in takeWhile is_digit rest \<noteq> [] \<and>
          (dropWhile is_digit rest = [] \<or> dropWhile is_digit rest = ''\<newline>'')))"

definition get_api_keys :: "(string \<times> string) list \<Rightarrow> string list" where
  "get_api_keys environ = map snd (filter (\<lambda>kv. api_key_pattern_match (fst kv)) environ)"

text \<open>
  \<open>get_secret\<close> asks the secret manager and decodes a JSON object; it is a parameter
  \<open>gs\<close> that gives a dictionary or an error. \<open>credential_block\<close> is the text one pass of
  the loop of \<open>generate_additional_content\<close> appends: the continuation line of the
  source puts twelve spaces before \<open>api_url\<close>.
\<close>

definition credential_block :: "nat \<Rightarrow> string \<Rightarrow> string \<Rightarrow> string" where
  "credential_block count api_url api_key =
     ''parameters.api'' @ str_nat count @ ''\<newline>            api_url='' @ api_url @
     ''\<newline>api_key='' @ api_key @ ''\<newline>\<newline>''"

definition dict_lookup :: "(string \<times> string) list \<Rightarrow> string \<Rightarrow> error + string" where
  "dict_lookup d k = (case map_of d k of None \<Rightarrow> Inl (KeyError k) | Some v \<Rightarrow> Inr v)"

fun generate_from ::
  "(string \<Rightarrow> error + (string \<times> string) list) \<Rightarrow> nat \<Rightarrow> string list \<Rightarrow> string \<Rightarrow> error + string" where
  "generate_from gs count [] additional_content = Inr additional_content"
| "generate_from gs count (secret_key # rest) additional_content =
     (case gs secret_key of
        Inl e \<Rightarrow> Inl e
      | Inr secret_key_value \<Rightarrow>
          (case dict_lookup secret_key_value ''api_url'' of
             Inl e \<Rightarrow> Inl e
           | Inr api_url \<Rightarrow>
               (case dict_lookup secret_key_value ''api_key'' of
                  Inl e \<Rightarrow> Inl e
                | Inr api_key \<Rightarrow>
                    generate_from gs (Suc count) rest
                      (additional_content @ credential_block count api_url api_key))))"

definition generate_additional_content ::
  "(string \<Rightarrow> error + (string \<times> string) list) \<Rightarrow> (string \<times> string) list \<Rightarrow> error + string" where
  "generate_additional_content gs environ = generate_from gs 0 (get_api_keys environ) []"

section \<open>Updating a directory\<close>

text \<open>
  \<open>FILES_TO_UPDATE\<close> is a dictionary keyed by the modes' strings; a later entry of a
  dictionary display replaces an earlier one with the same key.
\<close>

definition FILES_TO_UPDATE :: "(ExecTypes \<Rightarrow> string) \<Rightarrow> (string \<times> string list) list" where
  "FILES_TO_UPDATE ev =
     dict_set (ev ERA5T_MONTHLY) [''lnsp'', ''zs'', ''sfc'']
       (dict_set (ev ERA5T_DAILY) [''dve'', ''o3q'', ''qrqs'', ''tw'', ''pl'', ''sl'']
          (dict_set (ev ERA5)
             [''dve'', ''o3q'', ''qrqs'', ''tw'', ''pl'', ''sl'', ''lnsp'', ''zs'', ''sfc''] []))"

definition any_chunk_in :: "string list \<Rightarrow> string \<Rightarrow> bool" where
  "any_chunk_in files_to_update filename = list_ex (\<lambda>chunk. contains chunk filename) files_to_update"

definition is_year_wise :: "string \<Rightarrow> bool" where
  "is_year_wise filename =
     (contains ''lnsp'' filename \<or> contains ''zs'' filename \<or> contains ''sfc'' filename)"

text \<open>
  The loop over \<open>all_files\<close>. The first exception ends the run: the files rewritten
  before it stay rewritten, so the result is the files as they are then, with the
  error if there was one.
\<close>

fun update_files ::
  "files \<Rightarrow> string \<Rightarrow> string \<Rightarrow> MonthDates \<Rightarrow> string list \<Rightarrow> string option \<Rightarrow> string list
     \<Rightarrow> error option \<times> files" where
  "update_files fs field_name additional_content dates_data files_to_update temp_path [] =
     (None, fs)"
| "update_files fs field_name additional_content dates_data files_to_update temp_path
     (filename # rest) =
     (if any_chunk_in files_to_update filename then
        (case new_config_file fs filename field_name additional_content
                (MonthDates.extend dates_data
                   (ConfigArgs.fields (is_year_wise filename))) temp_path of
           Inl e \<Rightarrow> (Some e, fs)
         | Inr fs' \<Rightarrow>
             update_files fs' field_name additional_content dates_data files_to_update
               temp_path rest)
      else
        update_files fs field_name additional_content dates_data files_to_update temp_path rest)"

text \<open>
  \<open>update_config_file\<close>. The date of the day, the environment, the secret manager and
  \<open>glob.glob\<close> are parameters: \<open>today\<close>, \<open>environ\<close>, \<open>gs\<close> and \<open>glob\<close>.
\<close>

definition update_config_file ::
  "(ExecTypes \<Rightarrow> string) \<Rightarrow> date \<Rightarrow> (string \<times> string) list
     \<Rightarrow> (string \<Rightarrow> error + (string \<times> string) list) \<Rightarrow> (string \<Rightarrow> string list) \<Rightarrow> files
     \<Rightarrow> string \<Rightarrow> string \<Rightarrow> string \<Rightarrow> string option \<Rightarrow> error option \<times> files" where
  "update_config_file ev today environ gs glob fs directory field_name mode temp_path =
     (case get_previous_month_dates ev mode today of
        Inl e \<Rightarrow> (Some e, fs)
      | Inr dates_data \<Rightarrow>
          (case map_of (FILES_TO_UPDATE ev) mode of
             None \<Rightarrow> (Some (KeyError mode), fs)
           | Some files_to_update \<Rightarrow>
               (let all_files =
                      (if mode = ev ERA5 then glob (directory @ ''/*/*.cfg'')
                       else glob (directory @ ''/'' @ mode @ ''/*.cfg''))
                in case generate_additional_content gs environ of
                     Inl e \<Rightarrow> (Some e, fs)
                   | Inr additional_content \<Rightarrow>
                       update_files fs field_name additional_content dates_data
                         files_to_update temp_path all_files)))"

section \<open>Removing the credentials\<close>

definition license_section :: "nat \<Rightarrow> string" where
  "license_section license_number = ''parameters.api'' @ str_nat license_number"



section \<open>Notions used to state the properties\<close>

text \<open>
  The name the loop of \<open>new_config_file\<close> gives the section it makes of a block:
  \<open>sections[0].strip()\<close>.
\<close>

definition section_name_of :: "string \<Rightarrow> string" where
  "section_name_of section = strip (hd (split_str ''\<newline>'' section))"

text \<open>
  A text is \<open>tight\<close> when it has no blank line inside and no newline at its end, so that
  a separator \<open>\n\n\<close> put after it is found exactly there.
\<close>

fun tight :: "string \<Rightarrow> bool" where
  "tight [] = True"
| "tight [c] = (c \<noteq> CHR 0x0A)"
| "tight (c # d # cs) = (\<not> (c = CHR 0x0A \<and> d = CHR 0x0A) \<and> tight (d # cs))"

text \<open>
  A resolved secret is the pair of its \<open>api_url\<close> and \<open>api_key\<close>. \<open>resolves gs key secret\<close>
  says that the secret manager answers \<open>key\<close> with a dictionary holding both.
  \<open>credential_text count secrets\<close> is the text \<open>generate_additional_content\<close> builds
  from the secrets, numbered from \<open>count\<close>; \<open>block_segment\<close> is one block without the
  blank line that ends it, \<open>segments\<close> the blocks in order, and \<open>credential_sections\<close>
  the sections they become.
\<close>

definition resolves ::
  "(string \<Rightarrow> error + (string \<times> string) list) \<Rightarrow> string \<Rightarrow> string \<times> string \<Rightarrow> bool" where
  "resolves gs secret_key secret =
     (case gs secret_key of
        Inl e \<Rightarrow> False
      | Inr d \<Rightarrow> map_of d ''api_url'' = Some (fst secret) \<and> map_of d ''api_key'' = Some (snd secret))"

fun credential_text :: "nat \<Rightarrow> (string \<times> string) list \<Rightarrow> string" where
  "credential_text count [] = []"
| "credential_text count ((api_url, api_key) # rest) =
     credential_block count api_url api_key @ credential_text (Suc count) rest"

definition block_segment :: "nat \<Rightarrow> string \<Rightarrow> string \<Rightarrow> string" where
  "block_segment count api_url api_key =
     license_section count @ ''\<newline>            api_url='' @ api_url @
     ''\<newline>api_key='' @ api_key"

fun segments :: "nat \<Rightarrow> (string \<times> string) list \<Rightarrow> string list" where
  "segments count [] = []"
| "segments count ((api_url, api_key) # rest) =
     block_segment count api_url api_key # segments (Suc count) rest"

fun credential_sections :: "nat \<Rightarrow> (string \<times> string) list \<Rightarrow> (string \<times> options) list" where
  "credential_sections count [] = []"
| "credential_sections count ((api_url, api_key) # rest) =
     (license_section count, [(''api_url'', strip api_url), (''api_key'', strip api_key)])
       # credential_sections (Suc count) rest"

text \<open>
  A value is \<open>clean\<close> when it has no newline, and has \<open>no_equals\<close> when it has no
  \<open>=\<close>; a secret is \<open>well_formed\<close> when both hold of both its values.
\<close>

definition clean :: "string \<Rightarrow> bool" where
  "clean s = (CHR 0x0A \<notin> set s)"

definition no_equals :: "string \<Rightarrow> bool" where
  "no_equals s = (CHR ''='' \<notin> set s)"

definition well_formed :: "string \<times> string \<Rightarrow> bool" where
  "well_formed secret =
     (clean (fst secret) \<and> clean (snd secret) \<and> no_equals (fst secret) \<and> no_equals (snd secret))"

text \<open>A configuration file with the two sections the module expects.\<close>

definition sample_config :: config where
  "sample_config =
     \<lparr>defaults = [],
      sections =
        [(''parameters'', [(''target_path'', ''gs://gcp-public-data-arco-era5/raw/era5.nc'')]),
         (''selection'', [(''date'', ''2020-01-01/to/2020-01-31'')])]\<rparr>"

text \<open>
  Concrete data for evaluating the operations: an environment with two credential
  variables, a secret manager that knows both, a directory of two files, and the
  contents of a file before the rewriting, after it, and with stale credentials.
\<close>

definition sample_environ :: "(string \<times> string) list" where
  "sample_environ =
     [(''HOME'', ''/root''),
      (''API_KEY_1'', ''projects/p/secrets/first''),
      (''API_KEY_2'', ''projects/p/secrets/second'')]"

definition sample_secret_manager :: "string \<Rightarrow> error + (string \<times> string) list" where
  "sample_secret_manager secret_key =
     (if secret_key = ''projects/p/secrets/first''
      then Inr [(''api_url'', ''https://cds.example/api''), (''api_key'', ''1:abc'')]
      else if secret_key = ''projects/p/secrets/second''
      then Inr [(''api_url'', ''https://cds.example/api''), (''api_key'', ''2:def'')]
      else Inl (SecretError secret_key))"

definition sample_secrets :: "(string \<times> string) list" where
  "sample_secrets = [(''https://cds.example/api'', ''1:abc''), (''https://cds.example/api'', ''2:def'')]"

definition sample_files :: files where
  "sample_files path =
     (if path = ''cfg/daily/era5_pl.cfg'' \<or> path = ''cfg/daily/notes.cfg''
      then Some sample_config else None)"

definition sample_glob :: "string \<Rightarrow> string list" where
  "sample_glob pattern =
     (if pattern = ''cfg/daily/*.cfg'' then [''cfg/daily/era5_pl.cfg'', ''cfg/daily/notes.cfg'']
      else [])"

definition stale_config :: config where
  "stale_config =
     \<lparr>defaults = [],
      sections =
        [(''parameters'', [(''target_path'', ''gs://gcp-public-data-arco-era5/raw/era5.nc'')]),
         (''selection'', [(''date'', ''2020-01-01/to/2020-01-31'')]),
         (''parameters.api0'', [(''api_url'', ''https://old.example''), (''api_key'', ''0:old'')])]\<rparr>"

definition sample_args :: ConfigArgs where
  "sample_args =
     \<lparr>first_day = \<lparr>year = 2024, month = 3, day = 4\<rparr>,
      last_day = \<lparr>year = 2024, month = 3, day = 4\<rparr>,
      sl_year = ''2024'', sl_month = ''03'', year_wise_date = False\<rparr>"



text \<open>\<open>os.path.basename\<close>: the name of a file, the part of its path after the last \<open>/\<close>.\<close>

definition basename :: "string \<Rightarrow> string" where
  "basename path = rev (takeWhile (\<lambda>c. c \<noteq> CHR ''/'') (rev path))"

text \<open>
  A directory whose own name holds a fragment, and an environment whose one secret has an
  \<open>api_key\<close> that ends in \<open>=\<close>.
\<close>

definition templates_files :: files where
  "templates_files path =
     (if path = ''templates/daily/notes.cfg'' then Some sample_config else None)"

definition templates_glob :: "string \<Rightarrow> string list" where
  "templates_glob pattern =
     (if pattern = ''templates/daily/*.cfg'' then [''templates/daily/notes.cfg''] else [])"

definition padded_environ :: "(string \<times> string) list" where
  "padded_environ = [(''API_KEY_1'', ''projects/p/secrets/padded'')]"

definition padded_secret_manager :: "string \<Rightarrow> error + (string \<times> string) list" where
  "padded_secret_manager secret_key =
     Inr [(''api_url'', ''https://cds.example/api''), (''api_key'', ''dG9rZW4='')]"

text \<open>The window of February 2024.\<close>

definition february_2024 :: MonthDates where
  "february_2024 =
     \<lparr>first_day = \<lparr>year = 2024, month = 2, day = 1\<rparr>,
      last_day = \<lparr>year = 2024, month = 2, day = 29\<rparr>,
      sl_year = ''2024'', sl_month = ''02''\<rparr>"

text \<open>
  The calendar month before month \<open>m\<close> of year \<open>y\<close>, as the specification words it
  ("the full calendar month immediately preceding"): the reference the window is
  compared with.
\<close>

definition previous_month :: "int \<Rightarrow> int \<Rightarrow> int \<times> int" where
  "previous_month y m = (if m = 1 then (y - 1, 12) else (y, m - 1))"

text \<open>
  The day before a date in the calendar: the day before in the same month, or the last
  day of the month before, or the 31st of December of the year before. "\<open>k\<close> days
  earlier" is \<open>k\<close> steps of it: the reference a subtraction of days is compared with.
\<close>

definition prev_day :: "date \<Rightarrow> date" where
  "prev_day dt =
     (if 1 < day dt then dt\<lparr>day := day dt - 1\<rparr>
      else if 1 < month dt
        then \<lparr>year = year dt, month = month dt - 1,
              day = days_in_month (year dt) (month dt - 1)\<rparr>
      else \<lparr>year = year dt - 1, month = 12, day = 31\<rparr>)"

text \<open>
  The two tables of the months with the leap year as a flag, and the month and the
  days before it that \<open>ord_to_ymd\<close> finds from its estimate \<open>(n + 50) div 32\<close> for day
  \<open>n\<close> of a year: \<open>month_ok\<close> says the estimate is corrected to the month that holds
  the day.
\<close>

definition dim_flag :: "bool \<Rightarrow> int \<Rightarrow> int" where
  "dim_flag L m = (if m = 2 \<and> L then 29 else days_in_month_table ! nat m)"

definition dbm_flag :: "bool \<Rightarrow> int \<Rightarrow> int" where
  "dbm_flag L m = days_before_month_table ! nat m + (if m > 2 \<and> L then 1 else 0)"

definition month_of :: "bool \<Rightarrow> int \<Rightarrow> int \<Rightarrow> int" where
  "month_of L n m0 = (if dbm_flag L m0 > n then m0 - 1 else m0)"

definition preceding_of :: "bool \<Rightarrow> int \<Rightarrow> int \<Rightarrow> int" where
  "preceding_of L n m0 =
     (if dbm_flag L m0 > n then dbm_flag L m0 - dim_flag L (m0 - 1) else dbm_flag L m0)"

definition month_ok :: "bool \<Rightarrow> int \<Rightarrow> int \<Rightarrow> bool" where
  "month_ok L n m0 =
     (1 \<le> month_of L n m0 \<and> month_of L n m0 \<le> 12 \<and>
      preceding_of L n m0 = dbm_flag L (month_of L n m0) \<and>
      preceding_of L n m0 \<le> n \<and>
      n - preceding_of L n m0 < dim_flag L (month_of L n m0))"

text \<open>
  One assignment of distinct strings to the members of \<open>ExecTypes\<close>, for evaluating
  the operations at concrete inputs.
\<close>

definition sample_values :: "ExecTypes \<Rightarrow> string" where
  "sample_values t =
     (case t of ERA5 \<Rightarrow> ''era5'' | ERA5T_DAILY \<Rightarrow> ''daily'' | ERA5T_MONTHLY \<Rightarrow> ''monthly'')"

text \<open>
  The form \<open>YYYY-MM-DD\<close> of a string: ten characters, digits but for the two hyphens.
\<close>

definition iso_form :: "string \<Rightarrow> bool" where
  "iso_form s =
     (length s = 10 \<and> list_all is_digit (take 4 s) \<and> s ! 4 = CHR ''-'' \<and>
      list_all is_digit (take 2 (drop 5 s)) \<and> s ! 7 = CHR ''-'' \<and>
      list_all is_digit (drop 8 s))"

text \<open>
  The value a file holds for an option of its \<open>selection\<close> section, if it has the
  section and the option.
\<close>

definition selection_of :: "files \<Rightarrow> string \<Rightarrow> string \<Rightarrow> string option" where
  "selection_of fs path option =
     (case map_of (sections (read_config fs path)) ''selection'' of
        None \<Rightarrow> None
      | Some d \<Rightarrow> map_of d option)"

text \<open>
  A directory of the mode \<open>ERA5\<close> with a year-wise file and a file with a date range,
  one run of the loop over it, and a run in the mode \<open>daily\<close> over a directory whose own
  name is \<open>zs\<close>.
\<close>

definition year_wise_config :: config where
  "year_wise_config =
     \<lparr>defaults = [],
      sections =
        [(''parameters'', [(''target_path'', ''gs://gcp-public-data-arco-era5/raw/lnsp.nc'')]),
         (''selection'', [(''date'', ''2020-01-01/to/2020-01-31''), (''year'', ''2020''),
                          (''day'', ''all'')])]\<rparr>"

definition era5_files :: files where
  "era5_files path =
     (if path = ''cfg/single/era5_lnsp.cfg'' then Some year_wise_config
      else if path = ''cfg/single/era5_pl.cfg'' then Some sample_config
      else None)"

definition era5_fragments :: "string list" where
  "era5_fragments = [''dve'', ''o3q'', ''qrqs'', ''tw'', ''pl'', ''sl'', ''lnsp'', ''zs'', ''sfc'']"

definition era5_paths :: "string list" where
  "era5_paths = [''cfg/single/era5_lnsp.cfg'', ''cfg/single/era5_pl.cfg'']"

definition era5_run :: "error option \<times> files" where
  "era5_run =
     update_files era5_files ''date'' (credential_text 0 sample_secrets) february_2024
       era5_fragments None era5_paths"

definition zs_files :: files where
  "zs_files path = (if path = ''zs/daily/era5_pl.cfg'' then Some sample_config else None)"

definition zs_glob :: "string \<Rightarrow> string list" where
  "zs_glob pattern = (if pattern = ''zs/daily/*.cfg'' then [''zs/daily/era5_pl.cfg''] else [])"

definition zs_run :: "error option \<times> files" where
  "zs_run =
     update_config_file sample_values \<lparr>year = 2024, month = 3, day = 10\<rparr> sample_environ
       sample_secret_manager zs_glob zs_files ''zs'' ''date'' ''daily'' None"

section \<open>Properties of the date window\<close>

lemmas calendar_defs =
  date_sub_def add_date_timedelta_def normalize_y_m_d_def days_in_month_def is_leap_def
  days_in_month_table_def ymd_to_ord_def days_before_year_def days_before_month_def
  days_before_month_table_def MAXORDINAL_def MINYEAR_def MAXYEAR_def ord_to_ymd_def
  DI4Y_def DI100Y_def DI400Y_def replace_day1_def

lemmas window_defs =
  get_previous_month_dates_def era5_delta_days_def get_month_range_def str_date_def
  zero_pad_def digit_char_def sample_values_def

subsection \<open>Decimal strings\<close>

lemma str_nat_digit: "n < 10 \<Longrightarrow> str_nat n = [digit_char n]"
  by (simp add: str_nat.simps)

lemma str_nat_step: "10 \<le> n \<Longrightarrow> str_nat n = str_nat (n div 10) @ [digit_char (n mod 10)]"
  by (subst str_nat.simps) simp

lemma length_str_nat_2: "n < 100 \<Longrightarrow> length (str_nat n) \<le> 2"
  by (cases "n < 10") (simp_all add: str_nat_digit str_nat_step)

lemma length_str_nat_4:
  assumes n: "n < 10000"
  shows "length (str_nat n) \<le> 4"
proof (cases "n < 100")
  case True
  then show ?thesis using length_str_nat_2 [of n] by simp
next
  case False
  then have unfold: "str_nat n = str_nat (n div 10) @ [digit_char (n mod 10)]"
    by (simp add: str_nat_step)
  have "length (str_nat (n div 10)) \<le> 3"
  proof (cases "n div 10 < 100")
    case True
    then show ?thesis using length_str_nat_2 [of "n div 10"] by simp
  next
    case False
    then have "str_nat (n div 10) = str_nat (n div 10 div 10) @ [digit_char (n div 10 mod 10)]"
      by (simp add: str_nat_step)
    moreover have "n div 10 div 10 < 100" using n by simp
    ultimately show ?thesis using length_str_nat_2 [of "n div 10 div 10"] by simp
  qed
  with unfold show ?thesis by simp
qed

lemma length_zero_pad: "length (str_nat (nat n)) \<le> w \<Longrightarrow> length (zero_pad w n) = w"
  by (simp add: zero_pad_def Let_def)

lemma valid_date_day_le_31: "valid_date dt \<Longrightarrow> day dt \<le> 31"
  by (auto simp: valid_date_def days_in_month_def days_in_month_table_def numeral_eq_Suc
      nth_Cons split: if_splits nat.splits)

lemma valid_date_lengths:
  assumes "valid_date dt"
  shows "length (zero_pad 4 (year dt)) = 4" and "length (zero_pad 2 (month dt)) = 2"
    and "length (zero_pad 2 (day dt)) = 2"
proof -
  from assms have y: "nat (year dt) < 10000" and m: "nat (month dt) < 100"
    by (auto simp: valid_date_def MINYEAR_def MAXYEAR_def)
  from valid_date_day_le_31 [OF assms] have d: "nat (day dt) < 100" by simp
  show "length (zero_pad 4 (year dt)) = 4"
    using length_str_nat_4 [OF y] by (rule length_zero_pad)
  show "length (zero_pad 2 (month dt)) = 2"
    using length_str_nat_2 [OF m] by (rule length_zero_pad)
  show "length (zero_pad 2 (day dt)) = 2"
    using length_str_nat_2 [OF d] by (rule length_zero_pad)
qed

lemma iso_slices:
  assumes "valid_date dt"
  shows "take 4 (str_date dt) = zero_pad 4 (year dt)"
    and "take 2 (drop 5 (str_date dt)) = zero_pad 2 (month dt)"
  using valid_date_lengths [OF assms] by (simp_all add: str_date_def)

text \<open>
  The window's two strings are, in every mode, the slices \<open>[:4]\<close> and \<open>[5:7]\<close> of
  \<open>str(first_day)\<close>.
\<close>

lemma window_strings:
  assumes "get_previous_month_dates ev mode today = Inr w"
  shows "sl_year w = take 4 (str_date (first_day w))"
    and "sl_month w = take 2 (drop 5 (str_date (first_day w)))"
  using assms
  by (auto simp: get_previous_month_dates_def split: if_splits sum.splits prod.splits)

subsection \<open>The month before a date\<close>

lemma get_month_range_previous:
  assumes "1 \<le> month dt" "month dt \<le> 12" "MINYEAR \<le> year dt" "year dt \<le> MAXYEAR"
    and "1 < year dt \<or> 1 < month dt"
    and "previous_month (year dt) (month dt) = (py, pm)"
  shows "get_month_range dt =
           Inr (\<lparr>year = py, month = pm, day = 1\<rparr>,
                \<lparr>year = py, month = pm, day = days_in_month py pm\<rparr>)"
  using assms
  by (auto simp: get_month_range_def calendar_defs previous_month_def Let_def split: if_splits)

lemma previous_month_valid:
  assumes "valid_date dt" "1 < year dt \<or> 1 < month dt"
    and "previous_month (year dt) (month dt) = (py, pm)"
  shows "valid_date \<lparr>year = py, month = pm, day = 1\<rparr>"
  using assms
  by (auto simp: valid_date_def previous_month_def MINYEAR_def MAXYEAR_def days_in_month_def
      days_in_month_table_def numeral_eq_Suc nth_Cons split: if_splits nat.splits)

subsection \<open>Ordinals\<close>

text \<open>
  \<open>toordinal\<close> numbers the days of the calendar from 0001-01-01, which is day 1, and
  \<open>ord_to_ymd\<close> finds the date of a number. The first part shows that \<open>ord_to_ymd\<close>
  returns a date with the ordinal it was given.
\<close>

lemma div_known: "0 \<le> r \<Longrightarrow> r < k \<Longrightarrow> x = k * q + r \<Longrightarrow> x div k = (q::int)"
  by simp

lemma mod_known: "0 \<le> r \<Longrightarrow> r < k \<Longrightarrow> x = k * q + r \<Longrightarrow> x mod k = (r::int)"
  by simp

lemma days_before_year_closed:
  assumes "0 \<le> a" "0 \<le> b" "b \<le> 3" "0 \<le> c" "c \<le> 24" "0 \<le> e" "e \<le> 3"
  shows "days_before_year (400 * a + 100 * b + 4 * c + e + 1) =
           146097 * a + 36524 * b + 1461 * c + 365 * e"
proof -
  let ?p = "400 * a + 100 * b + 4 * c + e"
  have d4: "?p div 4 = 100 * a + 25 * b + c"
    by (rule div_known [where r = e]) (use assms in linarith, use assms in linarith, simp)
  have d100: "?p div 100 = 4 * a + b"
    by (rule div_known [where r = "4 * c + e"]) (use assms in linarith, use assms in linarith, simp)
  have d400: "?p div 400 = a"
    by (rule div_known [where r = "100 * b + 4 * c + e"]) (use assms in linarith, use assms in linarith, simp)
  show ?thesis
    by (simp add: days_before_year_def Let_def d4 d100 d400)
qed


lemma is_leap_closed:
  assumes "0 \<le> a" "0 \<le> b" "b \<le> 3" "0 \<le> c" "c \<le> 24" "0 \<le> e" "e \<le> 3"
  shows "is_leap (400 * a + 100 * b + 4 * c + e + 1) = (e = 3 \<and> (c \<noteq> 24 \<or> b = 3))"
proof -
  let ?y = "400 * a + 100 * b + 4 * c + e + 1"
  consider (e3) "e = 3" | (lt) "e < 3" using assms by linarith
  then show ?thesis
  proof cases
    case lt
    have "?y mod 4 = e + 1"
      by (rule mod_known [where q = "100 * a + 25 * b + c"])
        (use assms lt in linarith, use assms lt in linarith, simp)
    with lt assms show ?thesis by (simp add: is_leap_def)
  next
    case e3
    have m4: "?y mod 4 = 0"
      by (rule mod_known [where q = "100 * a + 25 * b + c + 1"]) (simp, simp, simp add: e3)
    consider (c24) "c = 24" | (clt) "c < 24" using assms by linarith
    then show ?thesis
    proof cases
      case clt
      have "?y mod 100 = 4 * c + 4"
        by (rule mod_known [where q = "4 * a + b"])
          (use assms clt in linarith, use assms clt in linarith, simp add: e3)
      with clt assms e3 m4 show ?thesis by (simp add: is_leap_def)
    next
      case c24
      have m100: "?y mod 100 = 0"
        by (rule mod_known [where q = "4 * a + b + 1"]) (simp, simp, simp add: e3 c24)
      consider (b3) "b = 3" | (blt) "b < 3" using assms by linarith
      then show ?thesis
      proof cases
        case b3
        have "?y mod 400 = 0"
          by (rule mod_known [where q = "a + 1"]) (simp, simp, simp add: e3 c24 b3)
        with m4 m100 e3 c24 b3 show ?thesis by (simp add: is_leap_def)
      next
        case blt
        have "?y mod 400 = 100 * b + 100"
          by (rule mod_known [where q = a])
            (use assms blt in linarith, use assms blt in linarith, simp add: e3 c24)
        with m4 m100 e3 c24 blt assms show ?thesis by (simp add: is_leap_def)
      qed
    qed
  qed
qed

lemma tables:
  "days_before_month_table ! 0 = 0" "days_before_month_table ! Suc 0 = 0"
  "days_before_month_table ! 2 = 31" "days_before_month_table ! 3 = 59"
  "days_before_month_table ! 4 = 90" "days_before_month_table ! 5 = 120"
  "days_before_month_table ! 6 = 151" "days_before_month_table ! 7 = 181"
  "days_before_month_table ! 8 = 212" "days_before_month_table ! 9 = 243"
  "days_before_month_table ! 10 = 273" "days_before_month_table ! 11 = 304"
  "days_before_month_table ! 12 = 334"
  "days_in_month_table ! 0 = 0" "days_in_month_table ! Suc 0 = 31"
  "days_in_month_table ! 2 = 28" "days_in_month_table ! 3 = 31"
  "days_in_month_table ! 4 = 30" "days_in_month_table ! 5 = 31"
  "days_in_month_table ! 6 = 30" "days_in_month_table ! 7 = 31"
  "days_in_month_table ! 8 = 31" "days_in_month_table ! 9 = 30"
  "days_in_month_table ! 10 = 31" "days_in_month_table ! 11 = 30"
  "days_in_month_table ! 12 = 31"
  by (simp_all add: days_before_month_table_def days_in_month_table_def)

lemmas month_defs = month_ok_def month_of_def preceding_of_def dbm_flag_def dim_flag_def tables

lemma month_1: "0 \<le> n \<Longrightarrow> 32 \<le> n + 50 \<Longrightarrow> n + 50 < 64 \<Longrightarrow> month_ok L n 1"
  by (simp add: month_defs)

lemma month_2: "64 \<le> n + 50 \<Longrightarrow> n + 50 < 96 \<Longrightarrow> month_ok L n 2"
  by (simp add: month_defs)

lemma month_3: "96 \<le> n + 50 \<Longrightarrow> n + 50 < 128 \<Longrightarrow> month_ok L n 3"
  by (cases L) (simp_all add: month_defs)

lemma month_4: "128 \<le> n + 50 \<Longrightarrow> n + 50 < 160 \<Longrightarrow> month_ok L n 4"
  by (cases L) (simp_all add: month_defs)

lemma month_5: "160 \<le> n + 50 \<Longrightarrow> n + 50 < 192 \<Longrightarrow> month_ok L n 5"
  by (cases L) (simp_all add: month_defs)

lemma month_6: "192 \<le> n + 50 \<Longrightarrow> n + 50 < 224 \<Longrightarrow> month_ok L n 6"
  by (cases L) (simp_all add: month_defs)

lemma month_7: "224 \<le> n + 50 \<Longrightarrow> n + 50 < 256 \<Longrightarrow> month_ok L n 7"
  by (cases L) (simp_all add: month_defs)

lemma month_8: "256 \<le> n + 50 \<Longrightarrow> n + 50 < 288 \<Longrightarrow> month_ok L n 8"
  by (cases L) (simp_all add: month_defs)

lemma month_9: "288 \<le> n + 50 \<Longrightarrow> n + 50 < 320 \<Longrightarrow> month_ok L n 9"
  by (cases L) (simp_all add: month_defs)

lemma month_10: "320 \<le> n + 50 \<Longrightarrow> n + 50 < 352 \<Longrightarrow> month_ok L n 10"
  by (cases L) (simp_all add: month_defs)

lemma month_11: "352 \<le> n + 50 \<Longrightarrow> n + 50 < 384 \<Longrightarrow> month_ok L n 11"
  by (cases L) (simp_all add: month_defs)

lemma month_12: "384 \<le> n + 50 \<Longrightarrow> n \<le> 364 \<Longrightarrow> month_ok L n 12"
  by (cases L) (simp_all add: month_defs)

lemma month_estimate:
  assumes "0 \<le> n" "n \<le> 364"
  shows "month_ok L n ((n + 50) div 32)"
proof -
  define k where "k = (n + 50) div 32"
  define r where "r = (n + 50) mod 32"
  have r: "0 \<le> r" "r < 32" by (simp_all add: r_def)
  have eq: "n + 50 = 32 * k + r" by (simp add: k_def r_def)
  from assms r eq have "1 \<le> k" "k \<le> 12" by linarith+
  then have "k = 1 \<or> k = 2 \<or> k = 3 \<or> k = 4 \<or> k = 5 \<or> k = 6 \<or> k = 7 \<or> k = 8
    \<or> k = 9 \<or> k = 10 \<or> k = 11 \<or> k = 12"
    by presburger
  then consider "k = 1" | "k = 2" | "k = 3" | "k = 4" | "k = 5" | "k = 6" | "k = 7" | "k = 8"
    | "k = 9" | "k = 10" | "k = 11" | "k = 12"
    by blast
  then have "month_ok L n k"
  proof cases
    case 1 with assms r eq show ?thesis by (simp add: month_1)
  next
    case 2 with assms r eq show ?thesis by (simp add: month_2)
  next
    case 3 with assms r eq show ?thesis by (simp add: month_3)
  next
    case 4 with assms r eq show ?thesis by (simp add: month_4)
  next
    case 5 with assms r eq show ?thesis by (simp add: month_5)
  next
    case 6 with assms r eq show ?thesis by (simp add: month_6)
  next
    case 7 with assms r eq show ?thesis by (simp add: month_7)
  next
    case 8 with assms r eq show ?thesis by (simp add: month_8)
  next
    case 9 with assms r eq show ?thesis by (simp add: month_9)
  next
    case 10 with assms r eq show ?thesis by (simp add: month_10)
  next
    case 11 with assms r eq show ?thesis by (simp add: month_11)
  next
    case 12 with assms r eq show ?thesis by (simp add: month_12)
  qed
  then show ?thesis by (simp add: k_def)
qed

lemma days_in_month_flag: "days_in_month y m = dim_flag (is_leap y) m"
  by (simp add: days_in_month_def dim_flag_def)

lemma days_before_month_flag: "days_before_month y m = dbm_flag (is_leap y) m"
  by (simp add: days_before_month_def dbm_flag_def)

text \<open>The result of ord_to_ymd in terms of the quotients and remainders.\<close>

lemma ord_to_ymd_parts:
  assumes a: "a = (n - 1) div 146097" and b: "b = (n - 1) mod 146097 div 36524"
    and c: "c = (n - 1) mod 146097 mod 36524 div 1461"
    and e: "e = (n - 1) mod 146097 mod 36524 mod 1461 div 365"
    and k: "k = (n - 1) mod 146097 mod 36524 mod 1461 mod 365"
    and y: "y = a * 400 + 1 + b * 100 + c * 4 + e"
    and L: "L = (e = 3 \<and> (c \<noteq> 24 \<or> b = 3))"
  shows "ord_to_ymd n =
     (if e = 4 \<or> b = 4
      then \<lparr>year = y - 1, month = 12, day = 31\<rparr>
      else \<lparr>year = y,
            month = month_of L k ((k + 50) div 32),
            day = k - (if dbm_flag L ((k + 50) div 32) > k
                       then dbm_flag L ((k + 50) div 32) - days_in_month y ((k + 50) div 32 - 1)
                       else dbm_flag L ((k + 50) div 32)) + 1\<rparr>)"
  unfolding ord_to_ymd_def Let_def DI4Y_def DI100Y_def DI400Y_def
    a [symmetric] b [symmetric] c [symmetric] e [symmetric] k [symmetric] y [symmetric]
    L [symmetric]
  by (simp add: month_of_def dbm_flag_def)

lemma ord_to_ymd_correct:
  assumes n1: "1 \<le> n" and nmax: "n \<le> MAXORDINAL"
  shows "valid_date (ord_to_ymd n) \<and> toordinal (ord_to_ymd n) = n"
proof -
  define r400 where "r400 = (n - 1) mod 146097"
  define r100 where "r100 = r400 mod 36524"
  define r4 where "r4 = r100 mod 1461"
  define a where "a = (n - 1) div 146097"
  define b where "b = r400 div 36524"
  define c where "c = r100 div 1461"
  define e where "e = r4 div 365"
  define k where "k = r4 mod 365"
  define y where "y = a * 400 + 1 + b * 100 + c * 4 + e"
  define L where "L = (e = 3 \<and> (c \<noteq> 24 \<or> b = 3))"
  have s400: "n - 1 = 146097 * a + r400" "0 \<le> r400" "r400 < 146097"
    by (simp_all add: a_def r400_def)
  have s100: "r400 = 36524 * b + r100" "0 \<le> r100" "r100 < 36524"
    by (simp_all add: b_def r100_def)
  have s4: "r100 = 1461 * c + r4" "0 \<le> r4" "r4 < 1461"
    by (simp_all add: c_def r4_def)
  have s1: "r4 = 365 * e + k" "0 \<le> k" "k < 365"
    by (simp_all add: e_def k_def)
  have nonneg: "0 \<le> a" "0 \<le> b" "0 \<le> c" "0 \<le> e"
    using n1 s400(2) s100(2) s4(2)
    by (simp_all add: a_def b_def c_def e_def pos_imp_zdiv_nonneg_iff)
  have upper: "a \<le> 24" "b \<le> 4" "c \<le> 24" "e \<le> 4"
    using nmax s400 s100 s4 s1 unfolding MAXORDINAL_def by linarith+
  have parts: "ord_to_ymd n =
     (if e = 4 \<or> b = 4
      then \<lparr>year = y - 1, month = 12, day = 31\<rparr>
      else \<lparr>year = y,
            month = month_of L k ((k + 50) div 32),
            day = k - (if dbm_flag L ((k + 50) div 32) > k
                       then dbm_flag L ((k + 50) div 32) - days_in_month y ((k + 50) div 32 - 1)
                       else dbm_flag L ((k + 50) div 32)) + 1\<rparr>)"
    by (rule ord_to_ymd_parts)
      (simp_all add: a_def b_def c_def e_def k_def r400_def r100_def r4_def y_def L_def)
  show ?thesis
  proof (cases "b = 4")
    case b4: True
    with s400 s100 have "r100 = 0" by linarith
    with s4 nonneg have c0: "c = 0" and "r4 = 0" by linarith+
    with s1 nonneg have e0: "e = 0" and k0: "k = 0" by linarith+
    have yv: "y - 1 = 400 * a + 100 * 3 + 4 * 24 + 3 + 1"
      by (simp add: y_def b4 c0 e0)
    have dby: "days_before_year (y - 1) = 146097 * a + 36524 * 3 + 1461 * 24 + 365 * 3"
      unfolding yv using nonneg(1) by (intro days_before_year_closed) simp_all
    have leap: "is_leap (y - 1)"
      unfolding yv using nonneg(1) is_leap_closed [of a 3 24 3] by simp
    have nv: "n = 146097 * a + 146097"
      using s400(1) s100(1) b4 \<open>r100 = 0\<close> by linarith
    from nv nmax have "a \<le> 23" unfolding MAXORDINAL_def by linarith
    with nonneg(1) have yr: "1 \<le> y - 1" "y - 1 \<le> 9999" unfolding yv by linarith+
    have res: "ord_to_ymd n = \<lparr>year = y - 1, month = 12, day = 31\<rparr>"
      using parts b4 by simp
    have "valid_date \<lparr>year = y - 1, month = 12, day = 31\<rparr>"
      using yr by (simp add: valid_date_def MINYEAR_def MAXYEAR_def days_in_month_def tables)
    moreover have "toordinal \<lparr>year = y - 1, month = 12, day = 31\<rparr> = n"
      using leap by (simp add: toordinal_def ymd_to_ord_def dby days_before_month_def nv tables)
    ultimately show ?thesis by (simp add: res)
  next
    case b3: False
    with upper(2) have b3': "b \<le> 3" by linarith
    show ?thesis
    proof (cases "e = 4")
      case e4: True
      with s1 s4 have k0: "k = 0" and r4v: "r4 = 1460" by linarith+
      with s4 s100 have c23: "c \<le> 23" by linarith
      have yv: "y - 1 = 400 * a + 100 * b + 4 * c + 3 + 1"
        by (simp add: y_def e4)
      have dby: "days_before_year (y - 1) = 146097 * a + 36524 * b + 1461 * c + 365 * 3"
        unfolding yv using nonneg b3' c23 by (intro days_before_year_closed) simp_all
      have leap: "is_leap (y - 1)"
        unfolding yv using nonneg b3' c23 is_leap_closed [of a b c 3] by simp
      have nv: "n = 146097 * a + 36524 * b + 1461 * c + 1461"
        using s400(1) s100(1) s4(1) r4v by linarith
      have yr: "1 \<le> y - 1" "y - 1 \<le> 9999"
        unfolding yv using nonneg upper(1) b3' c23 by linarith+
      have res: "ord_to_ymd n = \<lparr>year = y - 1, month = 12, day = 31\<rparr>"
        using parts e4 by simp
      have "valid_date \<lparr>year = y - 1, month = 12, day = 31\<rparr>"
        using yr by (simp add: valid_date_def MINYEAR_def MAXYEAR_def days_in_month_def tables)
      moreover have "toordinal \<lparr>year = y - 1, month = 12, day = 31\<rparr> = n"
        using leap by (simp add: toordinal_def ymd_to_ord_def dby days_before_month_def nv tables)
      ultimately show ?thesis by (simp add: res)
    next
      case e3: False
      with upper(4) have e3': "e \<le> 3" by linarith
      have yv: "y = 400 * a + 100 * b + 4 * c + e + 1"
        by (simp add: y_def)
      have dby: "days_before_year y = 146097 * a + 36524 * b + 1461 * c + 365 * e"
        unfolding yv using nonneg b3' upper(3) e3' by (intro days_before_year_closed) simp_all
      have leap: "is_leap y = L"
        unfolding yv L_def using nonneg b3' upper(3) e3' by (intro is_leap_closed) simp_all
      have nv: "n = 146097 * a + 36524 * b + 1461 * c + 365 * e + k + 1"
        using s400(1) s100(1) s4(1) s1(1) by linarith
      have ok: "month_ok L k ((k + 50) div 32)"
        using s1 by (intro month_estimate) simp_all
      define m0 where "m0 = (k + 50) div 32"
      define m where "m = month_of L k m0"
      define p where "p = preceding_of L k m0"
      from ok have m: "1 \<le> m" "m \<le> 12" and p: "p = dbm_flag L m" "p \<le> k"
        "k - p < dim_flag L m"
        by (simp_all add: month_ok_def m_def p_def m0_def)
      have res: "ord_to_ymd n = \<lparr>year = y, month = m, day = k - p + 1\<rparr>"
        using parts b3 e3
        by (simp add: m_def p_def m0_def preceding_of_def days_in_month_flag leap)
      have top: "100 * b + 4 * c + e \<le> 398" if "a = 24"
      proof (rule ccontr)
        assume "\<not> 100 * b + 4 * c + e \<le> 398"
        with b3' upper(3) e3' have "b = 3" "c = 24" "e = 3" by linarith+
        with nv that s1(2) nmax show False unfolding MAXORDINAL_def by linarith
      qed
      have yr: "1 \<le> y" "y \<le> 9999"
      proof -
        show "1 \<le> y" unfolding yv using nonneg by linarith
        show "y \<le> 9999"
        proof (cases "a = 24")
          case True
          with top show ?thesis unfolding yv by linarith
        next
          case False
          with upper(1) have "a \<le> 23" by linarith
          with b3' upper(3) e3' show ?thesis unfolding yv by linarith
        qed
      qed
      have "valid_date \<lparr>year = y, month = m, day = k - p + 1\<rparr>"
        using yr m p by (simp add: valid_date_def MINYEAR_def MAXYEAR_def days_in_month_flag leap)
      moreover have "toordinal \<lparr>year = y, month = m, day = k - p + 1\<rparr> = n"
        using p(1) by (simp add: toordinal_def ymd_to_ord_def dby days_before_month_flag leap nv)
      ultimately show ?thesis by (simp add: res)
    qed
  qed
qed

text \<open>
  Subtracting days: the result is a date, and its ordinal is smaller by the number of
  days.
\<close>

lemma div_succ:
  assumes "0 < (k::int)"
  shows "(p + 1) div k = p div k + (if (p + 1) mod k = 0 then 1 else 0)"
proof -
  define q where "q = p div k"
  define r where "r = p mod k"
  have p: "p = k * q + r" by (simp add: q_def r_def)
  have r: "0 \<le> r" "r < k" using assms by (simp_all add: r_def)
  show ?thesis
  proof (cases "r = k - 1")
    case True
    have eq: "p + 1 = k * (q + 1) + 0" by (simp add: p True algebra_simps)
    have "(p + 1) div k = q + 1" by (rule div_known [OF _ assms eq]) simp
    moreover have "(p + 1) mod k = 0" by (rule mod_known [OF _ assms eq]) simp
    ultimately show ?thesis by (simp add: q_def)
  next
    case False
    with r have r1: "0 \<le> r + 1" "r + 1 < k" by linarith+
    have eq: "p + 1 = k * q + (r + 1)" by (simp add: p)
    have "(p + 1) div k = q" by (rule div_known [OF r1 eq])
    moreover have "(p + 1) mod k = r + 1" by (rule mod_known [OF r1 eq])
    ultimately show ?thesis using r by (simp add: q_def)
  qed
qed

lemma days_before_year_step:
  "days_before_year (y + 1) = days_before_year y + 365 + (if is_leap y then 1 else 0)"
proof -
  define q4 where "q4 = (y - 1) div 4"
  define q100 where "q100 = (y - 1) div 100"
  define q400 where "q400 = (y - 1) div 400"
  define b4 :: int where "b4 = (if y mod 4 = 0 then 1 else 0)"
  define b100 :: int where "b100 = (if y mod 100 = 0 then 1 else 0)"
  define b400 :: int where "b400 = (if y mod 400 = 0 then 1 else 0)"
  have d4: "y div 4 = q4 + b4"
    using div_succ [of 4 "y - 1"] by (simp add: q4_def b4_def)
  have d100: "y div 100 = q100 + b100"
    using div_succ [of 100 "y - 1"] by (simp add: q100_def b100_def)
  have d400: "y div 400 = q400 + b400"
    using div_succ [of 400 "y - 1"] by (simp add: q400_def b400_def)
  have m1: "y mod 100 = 0" if "y mod 400 = 0"
    using mod_mod_cancel [of 100 400 y] that by simp
  have m2: "y mod 4 = 0" if "y mod 100 = 0"
    using mod_mod_cancel [of 4 100 y] that by simp
  have leap: "(if is_leap y then 1 else 0) = b4 - b100 + b400"
  proof (cases "y mod 400 = 0")
    case True
    with m1 m2 show ?thesis by (simp add: is_leap_def b4_def b100_def b400_def)
  next
    case n400: False
    show ?thesis
    proof (cases "y mod 100 = 0")
      case True
      with n400 m2 show ?thesis by (simp add: is_leap_def b4_def b100_def b400_def)
    next
      case False
      with n400 show ?thesis by (simp add: is_leap_def b4_def b100_def b400_def)
    qed
  qed
  have next_year: "days_before_year (y + 1) = y * 365 + (q4 + b4) - (q100 + b100) + (q400 + b400)"
    by (simp add: days_before_year_def d4 d100 d400)
  have this_year: "days_before_year y = (y - 1) * 365 + q4 - q100 + q400"
    by (simp add: days_before_year_def Let_def q4_def q100_def q400_def)
  show ?thesis
    unfolding next_year this_year leap by (simp add: algebra_simps)
qed

lemma dbm_flag_step:
  assumes "2 \<le> m" "m \<le> 12"
  shows "dbm_flag L m = dbm_flag L (m - 1) + dim_flag L (m - 1)"
proof -
  from assms have "m = 2 \<or> m = 3 \<or> m = 4 \<or> m = 5 \<or> m = 6 \<or> m = 7 \<or> m = 8
    \<or> m = 9 \<or> m = 10 \<or> m = 11 \<or> m = 12"
    by presburger
  then show ?thesis
    by (elim disjE) (simp_all add: dbm_flag_def dim_flag_def tables)
qed

lemma dim_flag_bounds:
  assumes "1 \<le> m" "m \<le> 12"
  shows "28 \<le> dim_flag L m \<and> dim_flag L m \<le> 31 \<and> 0 \<le> dbm_flag L m \<and>
    dbm_flag L m + dim_flag L m \<le> 365 + (if L then 1 else 0)"
proof -
  from assms have "m = 1 \<or> m = 2 \<or> m = 3 \<or> m = 4 \<or> m = 5 \<or> m = 6 \<or> m = 7 \<or> m = 8
    \<or> m = 9 \<or> m = 10 \<or> m = 11 \<or> m = 12"
    by presburger
  then show ?thesis
    by (elim disjE) (simp_all add: dbm_flag_def dim_flag_def tables)
qed

lemma days_before_year_mono:
  assumes "1 \<le> y" "y \<le> z"
  shows "days_before_year y \<le> days_before_year z"
proof -
  have "0 \<le> n \<Longrightarrow> days_before_year y \<le> days_before_year (y + n)" for n
  proof (induction n rule: int_ge_induct)
    case base
    show ?case by simp
  next
    case (step i)
    have "days_before_year (y + (i + 1)) = days_before_year (y + i + 1)"
      by (simp add: add.assoc)
    also have "\<dots> = days_before_year (y + i) + 365 + (if is_leap (y + i) then 1 else 0)"
      by (rule days_before_year_step)
    finally show ?case using step by simp
  qed
  from this [of "z - y"] assms show ?thesis by simp
qed

lemma days_before_year_1: "days_before_year 1 = 0"
  by (simp add: days_before_year_def)

lemma days_before_year_10000: "days_before_year 10000 = MAXORDINAL"
  by (simp add: days_before_year_def MAXORDINAL_def)

lemma toordinal_bounds:
  assumes "valid_date dt"
  shows "1 \<le> toordinal dt \<and> toordinal dt \<le> MAXORDINAL"
proof -
  let ?y = "year dt" and ?m = "month dt" and ?d = "day dt"
  from assms have v: "1 \<le> ?y" "?y \<le> 9999" "1 \<le> ?m" "?m \<le> 12" "1 \<le> ?d"
    "?d \<le> dim_flag (is_leap ?y) ?m"
    by (simp_all add: valid_date_def MINYEAR_def MAXYEAR_def days_in_month_flag)
  have lo: "0 \<le> days_before_year ?y"
    using days_before_year_mono [of 1 ?y] v(1) by (simp add: days_before_year_1)
  have lom: "0 \<le> dbm_flag (is_leap ?y) ?m"
    using dim_flag_bounds [OF v(3,4), of "is_leap ?y"] by simp
  have "days_before_year (?y + 1) \<le> days_before_year 10000"
    using v(1,2) by (intro days_before_year_mono) simp_all
  then have hi: "days_before_year ?y + 365 + (if is_leap ?y then 1 else 0) \<le> MAXORDINAL"
    by (simp add: days_before_year_step days_before_year_10000)
  from dim_flag_bounds [OF v(3,4), of "is_leap ?y"] v(6)
  have "dbm_flag (is_leap ?y) ?m + ?d \<le> 365 + (if is_leap ?y then 1 else 0)"
    by linarith
  with hi lo lom v(5) show ?thesis
    by (simp add: toordinal_def ymd_to_ord_def days_before_month_flag)
qed

lemma date_sub_correct:
  assumes v: "valid_date dt" and k0: "0 \<le> k" and kt: "k < toordinal dt"
  shows "\<exists>a. date_sub dt k = Inr a \<and> valid_date a \<and> toordinal a = toordinal dt - k"
proof -
  let ?y = "year dt" and ?m = "month dt" and ?d = "day dt"
  let ?L = "is_leap ?y"
  from v have vd: "1 \<le> ?y" "?y \<le> 9999" "1 \<le> ?m" "?m \<le> 12" "1 \<le> ?d"
    "?d \<le> dim_flag ?L ?m"
    by (simp_all add: valid_date_def MINYEAR_def MAXYEAR_def days_in_month_flag)
  have call: "date_sub dt k = normalize_y_m_d ?y ?m (?d - k)"
    by (simp add: date_sub_def add_date_timedelta_def)
  have ord: "toordinal dt = days_before_year ?y + dbm_flag ?L ?m + ?d"
    by (simp add: toordinal_def ymd_to_ord_def days_before_month_flag)
  consider (same) "1 \<le> ?d - k" | (zero) "?d - k = 0" | (far) "?d - k < 0" by linarith
  then show ?thesis
  proof cases
    case same
    with k0 vd have le: "?d - k \<le> dim_flag ?L ?m" by linarith
    have "date_sub dt k = Inr \<lparr>year = ?y, month = ?m, day = ?d - k\<rparr>"
      using same le vd
      by (simp add: call normalize_y_m_d_def Let_def days_in_month_flag MINYEAR_def MAXYEAR_def)
    moreover have "valid_date \<lparr>year = ?y, month = ?m, day = ?d - k\<rparr>"
      using same le vd by (simp add: valid_date_def days_in_month_flag MINYEAR_def MAXYEAR_def)
    moreover have "toordinal \<lparr>year = ?y, month = ?m, day = ?d - k\<rparr> = toordinal dt - k"
      by (simp add: toordinal_def ymd_to_ord_def)
    ultimately show ?thesis by simp
  next
    case zero
    from dim_flag_bounds [OF vd(3,4), of ?L] have dim: "28 \<le> dim_flag ?L ?m" by simp
    show ?thesis
    proof (cases "?m = 1")
      case False
      with vd have m2: "2 \<le> ?m" by linarith
      let ?a = "\<lparr>year = ?y, month = ?m - 1, day = dim_flag ?L (?m - 1)\<rparr>"
      from m2 vd(4) have m1: "1 \<le> ?m - 1" "?m - 1 \<le> 12" by linarith+
      from dim_flag_bounds [OF m1, of ?L] have dim1: "28 \<le> dim_flag ?L (?m - 1)" by simp
      have "date_sub dt k = Inr ?a"
        using zero dim m2 vd
        by (simp add: call normalize_y_m_d_def Let_def days_in_month_flag MINYEAR_def MAXYEAR_def)
      moreover have "valid_date ?a"
        using m1 dim1 vd
        by (simp add: valid_date_def days_in_month_flag MINYEAR_def MAXYEAR_def)
      moreover have "toordinal ?a = toordinal dt - k"
        using zero dbm_flag_step [OF m2 vd(4), of ?L]
        by (simp add: ord) (simp add: toordinal_def ymd_to_ord_def days_before_month_flag)
      ultimately show ?thesis by blast
    next
      case True
      let ?a = "\<lparr>year = ?y - 1, month = 12, day = 31\<rparr>"
      from kt zero True have pos: "0 < days_before_year ?y"
        by (simp add: ord dbm_flag_def tables)
      have y2: "2 \<le> ?y"
      proof (rule ccontr)
        assume "\<not> 2 \<le> ?y"
        with vd have "?y = 1" by linarith
        with pos show False by (simp add: days_before_year_1)
      qed
      have step: "days_before_year ?y =
          days_before_year (?y - 1) + 365 + (if is_leap (?y - 1) then 1 else 0)"
        using days_before_year_step [of "?y - 1"] by simp
      have "date_sub dt k = Inr ?a"
        using zero dim True y2 vd
        by (simp add: call normalize_y_m_d_def Let_def days_in_month_flag MINYEAR_def MAXYEAR_def)
      moreover have "valid_date ?a"
        using y2 vd
        by (simp add: valid_date_def days_in_month_flag dim_flag_def MINYEAR_def MAXYEAR_def tables)
      moreover have "toordinal ?a = toordinal dt - k"
        using zero True
        by (simp add: ord step dbm_flag_def tables)
          (simp add: toordinal_def ymd_to_ord_def days_before_month_flag dbm_flag_def tables)
      ultimately show ?thesis by blast
    qed
  next
    case far
    from dim_flag_bounds [OF vd(3,4), of ?L] have dim: "28 \<le> dim_flag ?L ?m" by simp
    let ?n = "toordinal dt - k"
    from toordinal_bounds [OF v] k0 kt have n: "1 \<le> ?n" "?n \<le> MAXORDINAL" by linarith+
    have o: "ymd_to_ord ?y ?m 1 + (?d - k) - 1 = ?n"
      by (simp add: ord ymd_to_ord_def days_before_month_flag)
    have "date_sub dt k = Inr (ord_to_ymd ?n)"
      using far dim n unfolding call normalize_y_m_d_def Let_def o
      by (simp add: days_in_month_flag)
    with ord_to_ymd_correct [OF n] show ?thesis by simp
  qed
qed

lemma valid_date_parts:
  assumes "valid_date dt"
  shows "1 \<le> year dt" "year dt \<le> 9999" "1 \<le> month dt" "month dt \<le> 12" "1 \<le> day dt"
    "day dt \<le> dim_flag (is_leap (year dt)) (month dt)"
  using assms by (simp_all add: valid_date_def MINYEAR_def MAXYEAR_def days_in_month_flag)

lemma toordinal_parts:
  "toordinal dt = days_before_year (year dt) + dbm_flag (is_leap (year dt)) (month dt) + day dt"
  by (simp add: toordinal_def ymd_to_ord_def days_before_month_flag)

lemma dbm_flag_mono:
  assumes "1 \<le> m" "m \<le> m'" "m' \<le> 12"
  shows "dbm_flag L m \<le> dbm_flag L m'"
proof -
  have "0 \<le> n \<Longrightarrow> m + n \<le> 12 \<Longrightarrow> dbm_flag L m \<le> dbm_flag L (m + n)" for n
  proof (induction n rule: int_ge_induct)
    case base
    show ?case by simp
  next
    case (step i)
    from step.prems step.hyps assms(1) have b: "2 \<le> m + i + 1" "m + i + 1 \<le> 12"
      "1 \<le> m + i" "m + i \<le> 12"
      by linarith+
    have "dbm_flag L (m + (i + 1)) = dbm_flag L (m + i + 1)" by (simp add: add.assoc)
    also have "\<dots> = dbm_flag L (m + i) + dim_flag L (m + i)"
      using dbm_flag_step [OF b(1,2), of L] by simp
    finally have "dbm_flag L (m + i) \<le> dbm_flag L (m + (i + 1))"
      using dim_flag_bounds [OF b(3,4), of L] by linarith
    moreover from step.prems have "m + i \<le> 12" by linarith
    ultimately show ?case using step.IH by linarith
  qed
  from this [of "m' - m"] assms show ?thesis by simp
qed

text \<open>The ordinals of the days of a year lie after those of the year before.\<close>

lemma toordinal_year:
  assumes "valid_date dt"
  shows "days_before_year (year dt) < toordinal dt"
    and "toordinal dt \<le> days_before_year (year dt + 1)"
proof -
  note v = valid_date_parts [OF assms]
  from dim_flag_bounds [OF v(3,4), of "is_leap (year dt)"] v(5,6)
  show "days_before_year (year dt) < toordinal dt"
    by (simp add: toordinal_parts)
  from dim_flag_bounds [OF v(3,4), of "is_leap (year dt)"] v(6)
  have "dbm_flag (is_leap (year dt)) (month dt) + day dt
      \<le> 365 + (if is_leap (year dt) then 1 else 0)"
    by linarith
  then show "toordinal dt \<le> days_before_year (year dt + 1)"
    by (simp add: toordinal_parts days_before_year_step)
qed

lemma toordinal_less_year:
  assumes "valid_date a" "valid_date b" "year a < year b"
  shows "toordinal a < toordinal b"
proof -
  from valid_date_parts(1) [OF assms(1)] assms(3)
  have "days_before_year (year a + 1) \<le> days_before_year (year b)"
    by (intro days_before_year_mono) simp_all
  with toordinal_year(2) [OF assms(1)] toordinal_year(1) [OF assms(2)]
  show ?thesis by linarith
qed

lemma toordinal_less_month:
  assumes "valid_date a" "valid_date b" "year a = year b" "month a < month b"
  shows "toordinal a < toordinal b"
proof -
  note va = valid_date_parts [OF assms(1)] and vb = valid_date_parts [OF assms(2)]
  let ?L = "is_leap (year b)"
  from assms(4) va(3) vb(4) have m: "2 \<le> month a + 1" "month a + 1 \<le> 12"
    "1 \<le> month a + 1" "month a + 1 \<le> month b"
    by linarith+
  have "dbm_flag ?L (month a) + dim_flag ?L (month a) = dbm_flag ?L (month a + 1)"
    using dbm_flag_step [OF m(1,2), of ?L] by simp
  moreover have "dbm_flag ?L (month a + 1) \<le> dbm_flag ?L (month b)"
    by (rule dbm_flag_mono [OF m(3,4) vb(4)])
  ultimately show ?thesis
    using va(6) vb(5) assms(3) by (simp add: toordinal_parts)
qed

text \<open>Two dates with the same ordinal are the same date.\<close>

lemma toordinal_inj:
  assumes "valid_date a" "valid_date b" "toordinal a = toordinal b"
  shows "a = b"
proof -
  have y: "year a = year b"
    using toordinal_less_year [OF assms(1,2)] toordinal_less_year [OF assms(2,1)] assms(3)
    by linarith
  have m: "month a = month b"
    using toordinal_less_month [OF assms(1,2) y] toordinal_less_month [OF assms(2,1) y [symmetric]]
      assms(3)
    by linarith
  have d: "day a = day b"
    using assms(3) by (simp add: toordinal_parts y m)
  from y m d show ?thesis by simp
qed

lemma days_before_year_2: "days_before_year 2 = 365"
  by (simp add: days_before_year_def)

lemma toordinal_first: "toordinal \<lparr>year = 1, month = 1, day = d\<rparr> = d"
  by (simp add: toordinal_parts days_before_year_1 dbm_flag_def tables)

text \<open>
  Every date but the first has a day before it, and \<open>date - timedelta(days=1)\<close> is
  that day.
\<close>

lemma date_sub_1:
  assumes v: "valid_date dt" and later: "1 < toordinal dt"
  shows "date_sub dt 1 = Inr (prev_day dt)"
proof -
  note vd = valid_date_parts [OF v]
  let ?L = "is_leap (year dt)"
  from dim_flag_bounds [OF vd(3,4), of ?L] have dim: "28 \<le> dim_flag ?L (month dt)" by simp
  have call: "date_sub dt 1 = normalize_y_m_d (year dt) (month dt) (day dt - 1)"
    by (simp add: date_sub_def add_date_timedelta_def)
  show ?thesis
  proof (cases "1 < day dt")
    case True
    with vd dim show ?thesis
      by (simp add: call normalize_y_m_d_def Let_def days_in_month_flag MINYEAR_def MAXYEAR_def
          prev_day_def)
  next
    case False
    with vd have d1: "day dt = 1" by linarith
    show ?thesis
    proof (cases "1 < month dt")
      case True
      with vd dim d1 show ?thesis
        by (simp add: call normalize_y_m_d_def Let_def days_in_month_flag MINYEAR_def MAXYEAR_def
            prev_day_def)
    next
      case False
      with vd have m1: "month dt = 1" by linarith
      have y2: "2 \<le> year dt"
      proof (rule ccontr)
        assume "\<not> 2 \<le> year dt"
        with vd have "year dt = 1" by linarith
        with later d1 m1 show False
          by (simp add: toordinal_parts days_before_year_1 dbm_flag_def tables)
      qed
      with vd dim d1 m1 show ?thesis
        by (simp add: call normalize_y_m_d_def Let_def days_in_month_flag MINYEAR_def MAXYEAR_def
            prev_day_def)
    qed
  qed
qed

lemma prev_day_correct:
  assumes "valid_date dt" "1 < toordinal dt"
  shows "valid_date (prev_day dt)" and "toordinal (prev_day dt) = toordinal dt - 1"
  using date_sub_correct [OF assms(1), of 1] assms(2) date_sub_1 [OF assms] by simp_all

lemma prev_days_correct:
  assumes "valid_date dt" "int k < toordinal dt"
  shows "valid_date ((prev_day ^^ k) dt) \<and> toordinal ((prev_day ^^ k) dt) = toordinal dt - int k"
  using assms(2)
proof (induction k)
  case 0
  with assms(1) show ?case by simp
next
  case (Suc k)
  then have IH: "valid_date ((prev_day ^^ k) dt)"
    "toordinal ((prev_day ^^ k) dt) = toordinal dt - int k"
    by simp_all
  from Suc.prems IH(2) have "1 < toordinal ((prev_day ^^ k) dt)" by simp
  from prev_day_correct [OF IH(1) this] IH(2) show ?case by simp
qed

text \<open>
  \<open>date - timedelta(days=k)\<close> is the date reached by stepping \<open>k\<close> times to the day
  before, as long as the calendar has that many days before the date.
\<close>

lemma date_sub_days:
  assumes "valid_date dt" "int k < toordinal dt"
  shows "date_sub dt (int k) = Inr ((prev_day ^^ k) dt)"
proof -
  from date_sub_correct [OF assms(1) _ assms(2)]
  obtain a where a: "date_sub dt (int k) = Inr a" "valid_date a"
    "toordinal a = toordinal dt - int k"
    by auto
  from prev_days_correct [OF assms] a(2,3) have "a = (prev_day ^^ k) dt"
    by (intro toordinal_inj) simp_all
  with a(1) show ?thesis by simp
qed

text \<open>Earlier than the first day of the calendar there is no date.\<close>

lemma date_sub_overflow:
  assumes v: "valid_date dt" and k: "toordinal dt \<le> k"
  shows "date_sub dt k = Inl OverflowError"
proof -
  note vd = valid_date_parts [OF v]
  let ?L = "is_leap (year dt)"
  from dim_flag_bounds [OF vd(3,4), of ?L]
  have dim: "28 \<le> dim_flag ?L (month dt)" "0 \<le> dbm_flag ?L (month dt)" by simp_all
  have year: "0 \<le> days_before_year (year dt)"
    using days_before_year_mono [OF _ vd(1)] by (simp add: days_before_year_1)
  have call: "date_sub dt k = normalize_y_m_d (year dt) (month dt) (day dt - k)"
    by (simp add: date_sub_def add_date_timedelta_def)
  from k dim(2) year have le: "day dt - k \<le> 0" by (simp add: toordinal_parts)
  show ?thesis
  proof (cases "day dt - k = 0")
    case True
    with k dim(2) year have z: "days_before_year (year dt) = 0" "dbm_flag ?L (month dt) = 0"
      by (simp_all add: toordinal_parts)
    have y1: "year dt = 1"
    proof (rule ccontr)
      assume "year dt \<noteq> 1"
      with vd have "2 \<le> year dt" by linarith
      from days_before_year_mono [OF _ this] z(1) show False
        by (simp add: days_before_year_2)
    qed
    have m1: "month dt = 1"
    proof (rule ccontr)
      assume "month dt \<noteq> 1"
      with vd have "2 \<le> month dt" by linarith
      from dbm_flag_mono [OF _ this vd(4), of ?L] z(2) show False
        by (simp add: dbm_flag_def tables)
    qed
    from True dim y1 m1 show ?thesis
      by (simp add: call normalize_y_m_d_def Let_def days_in_month_flag MINYEAR_def MAXYEAR_def)
  next
    case False
    with le have neg: "day dt - k < 0" by linarith
    have o: "ymd_to_ord (year dt) (month dt) 1 + (day dt - k) - 1 = toordinal dt - k"
      by (simp add: toordinal_parts ymd_to_ord_def days_before_month_flag)
    from neg dim k show ?thesis
      unfolding call normalize_y_m_d_def Let_def o
      by (simp add: days_in_month_flag)
  qed
qed

lemma date_sub_valid:
  assumes "valid_date dt" "0 \<le> k" "date_sub dt k = Inr a"
  shows "valid_date a"
proof (cases "k < toordinal dt")
  case True
  from date_sub_correct [OF assms(1,2) True] assms(3) show ?thesis by auto
next
  case False
  then have "toordinal dt \<le> k" by simp
  from date_sub_overflow [OF assms(1) this] assms(3) show ?thesis by simp
qed

subsection \<open>Evaluations at the dates of the specification\<close>

lemma date_sub_2024_03_10_6:
  "date_sub \<lparr>year = 2024, month = 3, day = 10\<rparr> 6 = Inr \<lparr>year = 2024, month = 3, day = 4\<rparr>"
  by (simp add: calendar_defs Let_def)

lemma date_sub_2024_03_10_61:
  "date_sub \<lparr>year = 2024, month = 3, day = 10\<rparr> 61 = Inr \<lparr>year = 2024, month = 1, day = 9\<rparr>"
  by (simp add: calendar_defs Let_def)

lemma str_date_2024_03_04: "str_date \<lparr>year = 2024, month = 3, day = 4\<rparr> = ''2024-03-04''"
  by (simp add: str_date_def zero_pad_def str_nat_step str_nat_digit digit_char_def)

lemma zero_pad_2023: "zero_pad 4 2023 = ''2023''"
  by (simp add: zero_pad_def str_nat_step str_nat_digit digit_char_def)

lemma zero_pad_2024: "zero_pad 4 2024 = ''2024''"
  by (simp add: zero_pad_def str_nat_step str_nat_digit digit_char_def)

lemma zero_pad_02: "zero_pad 2 2 = ''02''"
  by (simp add: zero_pad_def str_nat_digit digit_char_def)

lemma zero_pad_03: "zero_pad 2 3 = ''03''"
  by (simp add: zero_pad_def str_nat_digit digit_char_def)

lemma zero_pad_12: "zero_pad 2 12 = ''12''"
  by (simp add: zero_pad_def str_nat_step str_nat_digit digit_char_def)

lemma days_in_month_2024_02: "days_in_month 2024 2 = 29"
  by (simp add: days_in_month_def is_leap_def)

lemma days_in_month_2023_12: "days_in_month 2023 12 = 31"
  by (simp add: days_in_month_def days_in_month_table_def)

lemma valid_2024_03_15: "valid_date \<lparr>year = 2024, month = 3, day = 15\<rparr>"
  by (simp add: valid_date_def MINYEAR_def MAXYEAR_def days_in_month_def days_in_month_table_def)

lemma valid_2024_01_09: "valid_date \<lparr>year = 2024, month = 1, day = 9\<rparr>"
  by (simp add: valid_date_def MINYEAR_def MAXYEAR_def days_in_month_def days_in_month_table_def)

subsection \<open>The three modes\<close>

lemma valid_0001_01_06: "valid_date \<lparr>year = 1, month = 1, day = 6\<rparr>"
  by (simp add: valid_date_def MINYEAR_def MAXYEAR_def days_in_month_def tables)

text \<open>From 0001-01-07 on, a date has six days before it.\<close>

lemma toordinal_after_six:
  assumes v: "valid_date dt"
    and later: "1 < year dt \<or> 1 < month dt \<or> 6 < day dt"
  shows "6 < toordinal dt"
proof (cases "1 < year dt")
  case True
  then have "toordinal \<lparr>year = 1, month = 1, day = 6\<rparr> < toordinal dt"
    by (intro toordinal_less_year [OF valid_0001_01_06 v]) simp
  then show ?thesis by (simp add: toordinal_first)
next
  case False
  with valid_date_parts(1) [OF v] have y: "year dt = 1" by linarith
  show ?thesis
  proof (cases "1 < month dt")
    case True
    then have "toordinal \<lparr>year = 1, month = 1, day = 6\<rparr> < toordinal dt"
      by (intro toordinal_less_month [OF valid_0001_01_06 v]) (simp_all add: y)
    then show ?thesis by (simp add: toordinal_first)
  next
    case False
    with valid_date_parts(3) [OF v] have m: "month dt = 1" by linarith
    from later y m have "6 < day dt" by simp
    then show ?thesis
      by (simp add: toordinal_parts y m days_before_year_1 dbm_flag_def tables)
  qed
qed

text \<open>
  C7. In the mode \<open>ERA5T_DAILY\<close> and for every date \<open>today\<close> from 0001-01-07 on, the
  window's first and last day are both the date six days before \<open>today\<close>: the date
  reached by stepping six times to the day before in the calendar. It is a date of the
  calendar, and its ordinal is that of \<open>today\<close> less 6, so \<open>today\<close> minus it is six
  days. The two strings are its year and month. (The first six days of year 1 have no
  date six days earlier, and the subtraction overflows there.) For \<open>today = 2024-03-10\<close>
  both days are \<open>2024-03-04\<close>, and for \<open>today = 2024-03-03\<close> both are \<open>2024-02-26\<close>.
\<close>

theorem daily_window:
  assumes "valid_date today"
    and "1 < year today \<or> 1 < month today \<or> 6 < day today"
  shows "get_previous_month_dates ev (ev ERA5T_DAILY) today =
           Inr \<lparr>first_day = (prev_day ^^ 6) today,
                last_day = (prev_day ^^ 6) today,
                sl_year = zero_pad 4 (year ((prev_day ^^ 6) today)),
                sl_month = zero_pad 2 (month ((prev_day ^^ 6) today))\<rparr> \<and>
         valid_date ((prev_day ^^ 6) today) \<and>
         toordinal ((prev_day ^^ 6) today) = toordinal today - 6"
proof -
  from toordinal_after_six [OF assms] have six: "int 6 < toordinal today" by simp
  from date_sub_days [OF assms(1) six]
  have sub: "date_sub today 6 = Inr ((prev_day ^^ 6) today)" by simp
  from prev_days_correct [OF assms(1) six]
  have earlier: "valid_date ((prev_day ^^ 6) today)"
    "toordinal ((prev_day ^^ 6) today) = toordinal today - 6"
    by simp_all
  have "get_previous_month_dates ev (ev ERA5T_DAILY) today =
           Inr \<lparr>first_day = (prev_day ^^ 6) today,
                last_day = (prev_day ^^ 6) today,
                sl_year = zero_pad 4 (year ((prev_day ^^ 6) today)),
                sl_month = zero_pad 2 (month ((prev_day ^^ 6) today))\<rparr>"
    using iso_slices [OF earlier(1)] by (simp add: get_previous_month_dates_def sub)
  with earlier show ?thesis by simp
qed

theorem daily_window_witness:
  "get_previous_month_dates sample_values ''daily'' \<lparr>year = 2024, month = 3, day = 10\<rparr> =
     Inr \<lparr>first_day = \<lparr>year = 2024, month = 3, day = 4\<rparr>,
          last_day = \<lparr>year = 2024, month = 3, day = 4\<rparr>,
          sl_year = ''2024'', sl_month = ''03''\<rparr> \<and>
   toordinal \<lparr>year = 2024, month = 3, day = 4\<rparr> =
     toordinal \<lparr>year = 2024, month = 3, day = 10\<rparr> - 6 \<and>
   get_previous_month_dates sample_values ''daily'' \<lparr>year = 2024, month = 3, day = 3\<rparr> =
     Inr \<lparr>first_day = \<lparr>year = 2024, month = 2, day = 26\<rparr>,
          last_day = \<lparr>year = 2024, month = 2, day = 26\<rparr>,
          sl_year = ''2024'', sl_month = ''02''\<rparr> \<and>
   toordinal \<lparr>year = 2024, month = 2, day = 26\<rparr> =
     toordinal \<lparr>year = 2024, month = 3, day = 3\<rparr> - 6"
proof -
  have v10: "valid_date \<lparr>year = 2024, month = 3, day = 10\<rparr>"
    and v3: "valid_date \<lparr>year = 2024, month = 3, day = 3\<rparr>"
    by (simp_all add: valid_date_def MINYEAR_def MAXYEAR_def days_in_month_def tables)
  have e10: "(prev_day ^^ 6) \<lparr>year = 2024, month = 3, day = 10\<rparr> =
      \<lparr>year = 2024, month = 3, day = 4\<rparr>"
    by (simp add: eval_nat_numeral prev_day_def)
  have e3: "(prev_day ^^ 6) \<lparr>year = 2024, month = 3, day = 3\<rparr> =
      \<lparr>year = 2024, month = 2, day = 26\<rparr>"
    by (simp add: eval_nat_numeral prev_day_def days_in_month_2024_02)
  from daily_window [OF v10, of sample_values] daily_window [OF v3, of sample_values]
  show ?thesis
    by (simp add: e10 e3 sample_values_def zero_pad_2024 zero_pad_02 zero_pad_03)
qed

lemma month_range_window:
  assumes valid: "valid_date anchor"
    and later: "1 < year anchor \<or> 1 < month anchor"
    and prev: "previous_month (year anchor) (month anchor) = (py, pm)"
  shows "(case get_month_range anchor of
            Inl e \<Rightarrow> Inl e
          | Inr (fd, ld) \<Rightarrow>
              Inr \<lparr>first_day = fd, last_day = ld, sl_year = take 4 (str_date fd),
                   sl_month = take 2 (drop 5 (str_date fd))\<rparr>) =
           Inr \<lparr>first_day = \<lparr>year = py, month = pm, day = 1\<rparr>,
                last_day = \<lparr>year = py, month = pm, day = days_in_month py pm\<rparr>,
                sl_year = zero_pad 4 py, sl_month = zero_pad 2 pm\<rparr>"
proof -
  from valid have rng: "1 \<le> month anchor" "month anchor \<le> 12" "MINYEAR \<le> year anchor"
    "year anchor \<le> MAXYEAR"
    by (simp_all add: valid_date_def)
  have range: "get_month_range anchor =
           Inr (\<lparr>year = py, month = pm, day = 1\<rparr>,
                \<lparr>year = py, month = pm, day = days_in_month py pm\<rparr>)"
    by (rule get_month_range_previous [OF rng later prev])
  have v1: "valid_date \<lparr>year = py, month = pm, day = 1\<rparr>"
    by (rule previous_month_valid [OF valid later prev])
  show ?thesis
    using range iso_slices [OF v1] by simp
qed

text \<open>
  C6. In the mode \<open>ERA5T_MONTHLY\<close> the anchor is \<open>today\<close> and the window is the whole
  calendar month before the anchor's month: its last day is the day before the first
  of the anchor's month, its first day is the first of that month. January of year 1
  has no month before it. For \<open>today = 2024-03-15\<close> the window is \<open>2024-02-01\<close> to
  \<open>2024-02-29\<close>.
\<close>

theorem monthly_window:
  assumes "ev ERA5T_MONTHLY \<noteq> ev ERA5T_DAILY"
    and "valid_date today"
    and "1 < year today \<or> 1 < month today"
    and "previous_month (year today) (month today) = (py, pm)"
  shows "get_previous_month_dates ev (ev ERA5T_MONTHLY) today =
           Inr \<lparr>first_day = \<lparr>year = py, month = pm, day = 1\<rparr>,
                last_day = \<lparr>year = py, month = pm, day = days_in_month py pm\<rparr>,
                sl_year = zero_pad 4 py, sl_month = zero_pad 2 pm\<rparr>"
  using assms(1) month_range_window [OF assms(2-4)]
  by (simp add: get_previous_month_dates_def)

theorem monthly_window_witness:
  "get_previous_month_dates sample_values ''monthly'' \<lparr>year = 2024, month = 3, day = 15\<rparr> =
     Inr \<lparr>first_day = \<lparr>year = 2024, month = 2, day = 1\<rparr>,
          last_day = \<lparr>year = 2024, month = 2, day = 29\<rparr>,
          sl_year = ''2024'', sl_month = ''02''\<rparr>"
  using monthly_window [of sample_values "\<lparr>year = 2024, month = 3, day = 15\<rparr>" 2024 2]
    valid_2024_03_15
  by (simp add: sample_values_def previous_month_def days_in_month_2024_02 zero_pad_2024
      zero_pad_02)

text \<open>
  C1, as the code has it. In the mode \<open>ERA5\<close>, and in any mode that is neither
  \<open>ERA5T_DAILY\<close> nor \<open>ERA5T_MONTHLY\<close>, the anchor is \<open>today\<close> minus \<open>2*366/12 = 61\<close>
  days, and the window is the whole calendar month before the month of the anchor (not
  the month that contains it): \<open>get_month_range\<close> steps back from the first of the
  anchor's month. For \<open>today = 2024-03-10\<close> the anchor is \<open>2024-01-09\<close> and the window is
  \<open>2023-12-01\<close> to \<open>2023-12-31\<close>.
\<close>

theorem era5_window:
  assumes "mode \<noteq> ev ERA5T_DAILY" and "mode \<noteq> ev ERA5T_MONTHLY"
    and "date_sub today 61 = Inr anchor"
    and "valid_date anchor"
    and "1 < year anchor \<or> 1 < month anchor"
    and "previous_month (year anchor) (month anchor) = (py, pm)"
  shows "era5_delta_days = 61 \<and>
         get_previous_month_dates ev mode today =
           Inr \<lparr>first_day = \<lparr>year = py, month = pm, day = 1\<rparr>,
                last_day = \<lparr>year = py, month = pm, day = days_in_month py pm\<rparr>,
                sl_year = zero_pad 4 py, sl_month = zero_pad 2 pm\<rparr>"
  using assms(1-3) month_range_window [OF assms(4-6)]
  by (simp add: get_previous_month_dates_def era5_delta_days_def)

theorem era5_window_witness:
  "date_sub \<lparr>year = 2024, month = 3, day = 10\<rparr> 61 = Inr \<lparr>year = 2024, month = 1, day = 9\<rparr> \<and>
   get_previous_month_dates sample_values ''era5'' \<lparr>year = 2024, month = 3, day = 10\<rparr> =
     Inr \<lparr>first_day = \<lparr>year = 2023, month = 12, day = 1\<rparr>,
          last_day = \<lparr>year = 2023, month = 12, day = 31\<rparr>,
          sl_year = ''2023'', sl_month = ''12''\<rparr>"
  using era5_window [of "''era5''" sample_values "\<lparr>year = 2024, month = 3, day = 10\<rparr>"
      "\<lparr>year = 2024, month = 1, day = 9\<rparr>" 2023 12]
    valid_2024_01_09 date_sub_2024_03_10_61
  by (simp add: sample_values_def previous_month_def days_in_month_2023_12 zero_pad_2023
      zero_pad_12)

text \<open>
  The window the specification gives for \<open>today = 2024-03-10\<close> in the mode \<open>ERA5\<close>, the
  month of January 2024 that contains the anchor, is not the window the code returns.
\<close>

theorem era5_window_counterexample:
  "\<not> (\<exists>w. get_previous_month_dates sample_values (sample_values ERA5)
             \<lparr>year = 2024, month = 3, day = 10\<rparr> = Inr w \<and>
           first_day w = \<lparr>year = 2024, month = 1, day = 1\<rparr> \<and>
           last_day w = \<lparr>year = 2024, month = 1, day = 31\<rparr>)"
  by (simp add: window_defs calendar_defs Let_def)

lemma monthly_2024_03_15:
  "get_previous_month_dates sample_values ''monthly'' \<lparr>year = 2024, month = 3, day = 15\<rparr> =
     Inr \<lparr>first_day = \<lparr>year = 2024, month = 2, day = 1\<rparr>,
          last_day = \<lparr>year = 2024, month = 2, day = 29\<rparr>,
          sl_year = ''2024'', sl_month = ''02''\<rparr>"
  by (simp add: window_defs calendar_defs Let_def str_nat_step str_nat_digit)

lemma valid_2024_02_01: "valid_date \<lparr>year = 2024, month = 2, day = 1\<rparr>"
  by (simp add: valid_date_def MINYEAR_def MAXYEAR_def days_in_month_def is_leap_def)

text \<open>The window of a date is made of dates.\<close>

lemma replace_day1_valid: "valid_date dt \<Longrightarrow> valid_date (replace_day1 dt)"
  using dim_flag_bounds [of "month dt" "is_leap (year dt)"]
  by (simp add: valid_date_def replace_day1_def days_in_month_flag)

lemma get_month_range_valid:
  assumes "valid_date dt" "get_month_range dt = Inr (fd, ld)"
  shows "valid_date fd" and "valid_date ld"
proof -
  from assms(2) have sub: "date_sub (replace_day1 dt) 1 = Inr ld" and fd: "fd = replace_day1 ld"
    by (auto simp: get_month_range_def split: sum.splits)
  from date_sub_valid [OF replace_day1_valid [OF assms(1)] _ sub] show "valid_date ld" by simp
  then show "valid_date fd" unfolding fd by (rule replace_day1_valid)
qed

lemma window_valid:
  assumes "valid_date today" "get_previous_month_dates ev mode today = Inr w"
  shows "valid_date (first_day w)" and "valid_date (last_day w)"
proof -
  have "valid_date (first_day w) \<and> valid_date (last_day w)"
  proof (cases "mode = ev ERA5T_DAILY")
    case True
    with assms(2) obtain a where a: "date_sub today 6 = Inr a" "first_day w = a" "last_day w = a"
      by (auto simp: get_previous_month_dates_def split: sum.splits)
    from date_sub_valid [OF assms(1) _ a(1)] a(2,3) show ?thesis by simp
  next
    case daily: False
    show ?thesis
    proof (cases "mode = ev ERA5T_MONTHLY")
      case True
      with daily assms(2) have "get_month_range today = Inr (first_day w, last_day w)"
        by (auto simp: get_previous_month_dates_def split: sum.splits)
      from get_month_range_valid [OF assms(1) this] show ?thesis by simp
    next
      case False
      with daily assms(2) obtain anchor where
        anchor: "date_sub today era5_delta_days = Inr anchor"
        and range: "get_month_range anchor = Inr (first_day w, last_day w)"
        by (auto simp: get_previous_month_dates_def split: sum.splits)
      from date_sub_valid [OF assms(1) _ anchor] have "valid_date anchor"
        by (simp add: era5_delta_days_def)
      from get_month_range_valid [OF this range] show ?thesis by simp
    qed
  qed
  then show "valid_date (first_day w)" and "valid_date (last_day w)" by simp_all
qed

text \<open>
  C9. For every date \<open>today\<close> and in every mode, the strings \<open>sl_year\<close> and \<open>sl_month\<close>
  of the window that \<open>get_previous_month_dates\<close> returns are the characters \<open>[0:4]\<close> and
  \<open>[5:7]\<close> of the ISO string of its \<open>first_day\<close>, and these are the year of \<open>first_day\<close>
  padded with zeros to four digits and its month padded to two digits.
\<close>

theorem window_year_month:
  assumes "valid_date today"
    and "get_previous_month_dates ev mode today = Inr w"
  shows "sl_year w = take 4 (str_date (first_day w)) \<and>
         sl_month w = take 2 (drop 5 (str_date (first_day w))) \<and>
         sl_year w = zero_pad 4 (year (first_day w)) \<and>
         sl_month w = zero_pad 2 (month (first_day w)) \<and>
         length (sl_year w) = 4 \<and> length (sl_month w) = 2"
proof -
  note first = window_valid(1) [OF assms]
  from window_strings [OF assms(2)] iso_slices [OF first] valid_date_lengths [OF first]
  show ?thesis by simp
qed

theorem window_year_month_witness:
  "sl_year february_2024 = take 4 (str_date (first_day february_2024)) \<and>
   sl_month february_2024 = take 2 (drop 5 (str_date (first_day february_2024))) \<and>
   sl_year february_2024 = zero_pad 4 (year (first_day february_2024)) \<and>
   sl_month february_2024 = zero_pad 2 (month (first_day february_2024)) \<and>
   length (sl_year february_2024) = 4 \<and> length (sl_month february_2024) = 2"
proof (rule window_year_month)
  show "valid_date \<lparr>year = 2024, month = 3, day = 15\<rparr>"
    by (rule valid_2024_03_15)
  show "get_previous_month_dates sample_values ''monthly'' \<lparr>year = 2024, month = 3, day = 15\<rparr> =
          Inr february_2024"
    by (simp add: monthly_2024_03_15 february_2024_def)
qed

section \<open>Properties of the configuration files\<close>

subsection \<open>Splitting\<close>

lemma split_from_single_length:
  "length (split_from [c] acc s) = Suc (count_list s c)"
  by (induction s arbitrary: acc) auto

lemma split_from_single_free:
  "c \<notin> set s \<Longrightarrow> split_from [c] acc s = [acc @ s]"
  by (induction s arbitrary: acc) auto

lemma split_from_single_cut:
  "c \<notin> set s \<Longrightarrow> split_from [c] acc (s @ c # rest) = (acc @ s) # split_from [c] [] rest"
  by (induction s arbitrary: acc) auto

lemma split_str_single_count:
  "split_str [c] s = [a, b] \<Longrightarrow> count_list s c = 1"
  using split_from_single_length [of c "[]" s] by (simp add: split_str_def)

lemma unpack2_Inr: "unpack2 parts = Inr (a, b) \<Longrightarrow> parts = [a, b]"
  by (auto simp: unpack2_def split: list.splits)

lemma unpack2_count:
  "unpack2 (split_str [c] s) = Inr (a, b) \<Longrightarrow> count_list s c = 1"
  by (drule unpack2_Inr) (rule split_str_single_count)

lemma split_from_blank_cut:
  "tight s \<Longrightarrow>
   split_from ''\<newline>\<newline>'' acc (s @ ''\<newline>\<newline>'' @ rest) =
     (acc @ s) # split_from ''\<newline>\<newline>'' [] rest"
proof (induction s arbitrary: acc rule: tight.induct)
  case 1
  then show ?case by simp
next
  case (2 c)
  then show ?case by simp
next
  case (3 c d cs)
  then show ?case by auto
qed

lemma tight_free: "CHR 0x0A \<notin> set s \<Longrightarrow> tight s"
  by (induction s rule: tight.induct) auto

lemma tight_append: "tight xs \<Longrightarrow> tight ys \<Longrightarrow> tight (xs @ ys)"
proof (induction xs rule: tight.induct)
  case 1
  then show ?case by simp
next
  case (2 c)
  then show ?case by (cases ys) auto
next
  case (3 c d cs)
  then show ?case by simp
qed

subsection \<open>Decimal strings are injective\<close>

lemma digit_cases: "n < 10 \<Longrightarrow> n \<in> {0, 1, 2, 3, 4, 5, 6, 7, 8, 9::nat}"
  by auto

lemma digit_char_code: "n < 10 \<Longrightarrow> of_char (digit_char n) = 48 + n"
  by (drule digit_cases) (elim insertE emptyE; simp add: digit_char_def)

lemma digit_char_inj: "a < 10 \<Longrightarrow> b < 10 \<Longrightarrow> digit_char a = digit_char b \<Longrightarrow> a = b"
proof -
  assume a: "a < 10" and b: "b < 10" and eq: "digit_char a = digit_char b"
  have "(of_char (digit_char a) :: nat) = of_char (digit_char b)"
    by (simp only: eq)
  then have "48 + a = 48 + b"
    by (simp only: digit_char_code [OF a] digit_char_code [OF b])
  then show "a = b" by simp
qed

lemma digit_char_is_digit: "n < 10 \<Longrightarrow> is_digit (digit_char n)"
  by (simp add: is_digit_def digit_char_code)

lemma str_nat_digits: "c \<in> set (str_nat n) \<Longrightarrow> is_digit c"
proof (induction n arbitrary: c rule: str_nat.induct)
  case (1 n)
  show ?case
  proof (cases "n < 10")
    case True
    with "1.prems" show ?thesis by (simp add: str_nat_digit digit_char_is_digit)
  next
    case False
    with "1.prems" have "c \<in> set (str_nat (n div 10)) \<or> c = digit_char (n mod 10)"
      by (auto simp: str_nat_step)
    then show ?thesis
      using "1.IH" [OF False] by (auto simp: digit_char_is_digit)
  qed
qed

lemma str_nat_not_Nil: "str_nat n \<noteq> []"
  by (subst str_nat.simps) simp

lemma str_nat_inj: "str_nat m = str_nat n \<Longrightarrow> m = n"
proof (induction m arbitrary: n rule: less_induct)
  case (less m)
  show ?case
  proof (cases "m < 10")
    case m: True
    show ?thesis
    proof (cases "n < 10")
      case True
      with m less.prems show ?thesis by (simp add: str_nat_digit digit_char_inj)
    next
      case False
      with m less.prems show ?thesis
        using str_nat_not_Nil [of "n div 10"] by (simp add: str_nat_digit str_nat_step)
    qed
  next
    case m: False
    show ?thesis
    proof (cases "n < 10")
      case True
      with m less.prems show ?thesis
        using str_nat_not_Nil [of "m div 10"] by (simp add: str_nat_digit str_nat_step)
    next
      case False
      with m less.prems have eq: "str_nat (m div 10) = str_nat (n div 10)"
        and dg: "digit_char (m mod 10) = digit_char (n mod 10)"
        by (simp_all add: str_nat_step)
      from m have "m div 10 < m" by simp
      from less.IH [OF this eq] have "m div 10 = n div 10" .
      moreover from dg have "m mod 10 = n mod 10" by (simp add: digit_char_inj)
      ultimately show ?thesis by (metis div_mult_mod_eq)
    qed
  qed
qed

lemma license_section_inj: "license_section i = license_section j \<Longrightarrow> i = j"
  by (simp add: license_section_def str_nat_inj)

subsection \<open>Whitespace\<close>

lemma strip_id: "s \<noteq> [] \<Longrightarrow> \<not> is_space (hd s) \<Longrightarrow> \<not> is_space (last s) \<Longrightarrow> strip s = s"
proof -
  assume a: "s \<noteq> []" "\<not> is_space (hd s)" "\<not> is_space (last s)"
  then have front: "dropWhile is_space s = s" by (simp add: dropWhile_eq_self_iff)
  from a have "dropWhile is_space (rev s) = rev s" by (simp add: dropWhile_eq_self_iff hd_rev)
  with front show ?thesis by (simp add: strip_def)
qed

lemma digit_not_space: "is_digit c \<Longrightarrow> \<not> is_space c"
  by (auto simp: is_digit_def is_space_def Let_def)

lemma digit_not_newline: "is_digit c \<Longrightarrow> c \<noteq> CHR 0x0A"
  by (auto simp: is_digit_def)

lemma strip_license_section: "strip (license_section i) = license_section i"
proof (rule strip_id)
  show "license_section i \<noteq> []" by (simp add: license_section_def)
  show "\<not> is_space (hd (license_section i))"
    by (simp add: license_section_def is_space_def)
  have "last (license_section i) = last (str_nat i)"
    by (simp add: license_section_def str_nat_not_Nil)
  moreover have "last (str_nat i) \<in> set (str_nat i)"
    by (simp add: str_nat_not_Nil)
  ultimately show "\<not> is_space (last (license_section i))"
    by (simp add: str_nat_digits digit_not_space)
qed

lemma license_section_no_newline: "CHR 0x0A \<notin> set (license_section i)"
  using str_nat_digits digit_not_newline by (auto simp: license_section_def)

lemma license_section_not_default: "license_section i \<noteq> default_section"
  by (simp add: license_section_def default_section_def)

lemma license_section_not_Nil: "license_section i \<noteq> []"
  by (simp add: license_section_def)

subsection \<open>Dictionaries\<close>

lemma map_fst_dict_set:
  "map fst (dict_set k v xs) = (if k \<in> fst ` set xs then map fst xs else map fst xs @ [k])"
  by (induction xs) force+

lemma map_of_dict_set: "map_of (dict_set k v xs) = (map_of xs)(k \<mapsto> v)"
  by (induction xs) (auto simp: fun_eq_iff)

lemma dict_set_append_fresh:
  "k \<notin> fst ` set xs \<Longrightarrow> dict_set k v (xs @ ys) = xs @ dict_set k v ys"
  by (induction xs) auto

lemma map_of_append_fresh:
  "k \<notin> fst ` set xs \<Longrightarrow> map_of (xs @ ys) k = map_of ys k"
  by (induction xs) auto

lemma map_of_append_old:
  "k \<in> fst ` set xs \<Longrightarrow> map_of (xs @ ys) k = map_of xs k"
  by (induction xs) auto

lemma map_of_Some_in_keys: "map_of xs k = Some v \<Longrightarrow> k \<in> fst ` set xs"
  by (induction xs) (auto split: if_splits)

subsection \<open>Sections\<close>

lemma add_section_Inr:
  "add_section cfg name = Inr cfg' \<longleftrightarrow>
     name \<noteq> default_section \<and> \<not> has_section cfg name \<and>
     cfg' = cfg\<lparr>sections := sections cfg @ [(name, [])]\<rparr>"
  by (auto simp: add_section_def)

lemma config_set_names:
  "config_set cfg section option v = Inr cfg' \<Longrightarrow>
     map fst (sections cfg') = map fst (sections cfg)"
  by (auto simp: config_set_def map_fst_dict_set split: if_splits option.splits
      dest: map_of_Some_in_keys)

lemma config_set_other:
  "config_set cfg section option v = Inr cfg' \<Longrightarrow> name \<noteq> section \<Longrightarrow>
     map_of (sections cfg') name = map_of (sections cfg) name"
  by (auto simp: config_set_def map_of_dict_set split: if_splits option.splits)

lemma config_set_has_section:
  "config_set cfg section option v = Inr cfg' \<Longrightarrow> has_section cfg' name = has_section cfg name"
  by (simp add: has_section_def config_set_names)

text \<open>Setting an option in the section just added.\<close>

lemma config_set_last:
  assumes "name \<noteq> []" "name \<noteq> default_section" "name \<notin> fst ` set secs"
  shows "config_set \<lparr>defaults = ds, sections = secs @ [(name, opts)]\<rparr> name option v =
           Inr \<lparr>defaults = ds, sections = secs @ [(name, dict_set (optionxform option) v opts)]\<rparr>"
  using assms
  by (simp add: config_set_def map_of_append_fresh dict_set_append_fresh del: map_of_append)

lemma set_from_line_names:
  "set_from_line cfg name lines i = Inr cfg' \<Longrightarrow>
     map fst (sections cfg') = map fst (sections cfg)"
  by (auto simp: set_from_line_def split: sum.splits prod.splits dest: config_set_names)

lemma set_from_line_other:
  "set_from_line cfg name lines i = Inr cfg' \<Longrightarrow> other \<noteq> name \<Longrightarrow>
     map_of (sections cfg') other = map_of (sections cfg) other"
  by (auto simp: set_from_line_def split: sum.splits prod.splits dest: config_set_other)

lemma set_from_line_count:
  "set_from_line cfg name lines i = Inr cfg' \<Longrightarrow>
     i < length lines \<and> count_list (lines ! i) CHR ''='' = 1"
  by (auto simp: set_from_line_def index_def split: sum.splits prod.splits if_splits
      dest: unpack2_count)

lemma split_from_not_Nil: "split_from sep acc s \<noteq> []"
  by (induction sep acc s rule: split_from.induct) auto

lemma split_str_not_Nil: "split_str sep s \<noteq> []"
  by (simp add: split_str_def split_from_not_Nil)

lemma index_0: "index (split_str sep s) 0 = Inr (hd (split_str sep s))"
  using split_str_not_Nil [of sep s] by (simp add: index_def hd_conv_nth)

lemma add_credential_section_names:
  assumes "add_credential_section cfg section = Inr cfg'"
  shows "map fst (sections cfg') = map fst (sections cfg) @ [section_name_of section]"
    and "\<not> has_section cfg (section_name_of section)"
    and "section_name_of section \<noteq> default_section"
  using assms
  by (auto simp: add_credential_section_def Let_def index_0 section_name_of_def add_section_Inr
      split: sum.splits dest!: set_from_line_names)

lemma add_credential_section_count:
  assumes "add_credential_section cfg section = Inr cfg'"
  shows "2 < length (split_str ''\<newline>'' section)"
    and "count_list (split_str ''\<newline>'' section ! 1) CHR ''='' = 1"
    and "count_list (split_str ''\<newline>'' section ! 2) CHR ''='' = 1"
  using assms
  by (auto simp: add_credential_section_def Let_def index_0 split: sum.splits
      dest!: set_from_line_count)

lemma add_credential_section_other:
  assumes "add_credential_section cfg section = Inr cfg'" and "has_section cfg name"
  shows "map_of (sections cfg') name = map_of (sections cfg) name"
proof -
  from assms(1) obtain c1 c2 where
    c1: "add_section cfg (section_name_of section) = Inr c1"
    and c2: "set_from_line c1 (section_name_of section) (split_str ''\<newline>'' section) 1 = Inr c2"
    and c3: "set_from_line c2 (section_name_of section) (split_str ''\<newline>'' section) 2 = Inr cfg'"
    by (auto simp: add_credential_section_def Let_def index_0 section_name_of_def
        split: sum.splits)
  from c1 assms(2) have neq: "name \<noteq> section_name_of section"
    by (auto simp: add_section_Inr)
  from c1 assms(2) have "map_of (sections c1) name = map_of (sections cfg) name"
    by (auto simp: add_section_Inr has_section_def map_of_append_old simp del: map_of_append)
  with set_from_line_other [OF c2 neq] set_from_line_other [OF c3 neq] show ?thesis by simp
qed

subsection \<open>The loop over the blocks\<close>

lemma add_credential_sections_append:
  "add_credential_sections cfg (pre @ post) =
     (case add_credential_sections cfg pre of
        Inl e \<Rightarrow> Inl e
      | Inr cfg1 \<Rightarrow> add_credential_sections cfg1 post)"
  by (induction pre arbitrary: cfg) (auto split: sum.splits)

lemma add_credential_sections_names:
  "add_credential_sections cfg segs = Inr cfg' \<Longrightarrow>
     map fst (sections cfg') = map fst (sections cfg) @ map section_name_of segs"
  by (induction segs arbitrary: cfg)
    (auto split: sum.splits dest!: add_credential_section_names(1))

lemma add_credential_sections_keeps:
  "add_credential_sections cfg segs = Inr cfg' \<Longrightarrow> has_section cfg name \<Longrightarrow>
     has_section cfg' name"
  by (drule add_credential_sections_names) (simp add: has_section_def)

lemma add_credential_sections_count:
  "add_credential_sections cfg segs = Inr cfg' \<Longrightarrow> section \<in> set segs \<Longrightarrow>
     2 < length (split_str ''\<newline>'' section) \<and>
     count_list (split_str ''\<newline>'' section ! 1) CHR ''='' = 1 \<and>
     count_list (split_str ''\<newline>'' section ! 2) CHR ''='' = 1"
proof (induction segs arbitrary: cfg)
  case Nil
  then show ?case by simp
next
  case (Cons s segs)
  from Cons.prems(1) obtain c1 where
    c1: "add_credential_section cfg s = Inr c1" and rest: "add_credential_sections c1 segs = Inr cfg'"
    by (auto split: sum.splits)
  show ?case
  proof (cases "section = s")
    case True
    with add_credential_section_count [OF c1] show ?thesis by simp
  next
    case False
    with Cons.prems(2) have "section \<in> set segs" by simp
    from Cons.IH [OF rest this] show ?thesis .
  qed
qed

lemma add_credential_section_duplicate:
  assumes "has_section cfg (section_name_of section)"
    and "section_name_of section \<noteq> default_section"
  shows "add_credential_section cfg section = Inl (DuplicateSectionError (section_name_of section))"
  using assms
  by (simp add: add_credential_section_def Let_def index_0 section_name_of_def add_section_def)

lemma add_credential_sections_fail:
  "section \<in> set segs \<Longrightarrow> has_section cfg (section_name_of section) \<Longrightarrow>
     \<exists>e. add_credential_sections cfg segs = Inl e"
proof (induction segs arbitrary: cfg)
  case Nil
  then show ?case by simp
next
  case (Cons s segs)
  show ?case
  proof (cases "add_credential_section cfg s")
    case (Inl e)
    then show ?thesis by simp
  next
    case (Inr c1)
    have "section \<noteq> s"
      using add_credential_section_names(2) [OF Inr] Cons.prems(2) by auto
    with Cons.prems(1) have mem: "section \<in> set segs" by simp
    have "has_section c1 (section_name_of section)"
      using add_credential_section_names(1) [OF Inr] Cons.prems(2)
      by (simp add: has_section_def)
    from Cons.IH [OF mem this] Inr show ?thesis by simp
  qed
qed

lemma add_credential_sections_duplicate:
  assumes "add_credential_sections cfg pre = Inr cfg1"
    and "has_section cfg (section_name_of section)"
    and "section_name_of section \<noteq> default_section"
  shows "add_credential_sections cfg (pre @ section # post) =
           Inl (DuplicateSectionError (section_name_of section))"
  using assms add_credential_sections_keeps [OF assms(1,2)]
  by (simp add: add_credential_sections_append add_credential_section_duplicate)

subsection \<open>The steps before the blocks keep the sections\<close>

lemma set_target_path_names:
  "set_target_path cfg temp_path = Inr cfg' \<Longrightarrow>
     map fst (sections cfg') = map fst (sections cfg)"
  by (auto simp: set_target_path_def split: option.splits if_splits sum.splits
      dest: config_set_names)

lemma set_selection_names:
  "set_selection cfg field_name config_args = Inr cfg' \<Longrightarrow>
     map fst (sections cfg') = map fst (sections cfg)"
  by (auto simp: set_selection_def split: if_splits sum.splits dest!: config_set_names)

lemma new_config_file_fail:
  assumes "section \<in> set (butlast (split_str ''\<newline>\<newline>'' additional_content))"
    and "has_section (read_config fs config_file) (section_name_of section)"
  shows "\<exists>e. new_config_file fs config_file field_name additional_content config_args
               temp_path = Inl e"
proof (cases "set_target_path (read_config fs config_file) temp_path")
  case (Inl e)
  then show ?thesis by (simp add: new_config_file_def)
next
  case c1: (Inr c1)
  show ?thesis
  proof (cases "set_selection c1 field_name config_args")
    case (Inl e)
    with c1 show ?thesis by (simp add: new_config_file_def)
  next
    case c2: (Inr c2)
    have "has_section c2 (section_name_of section)"
      using assms(2) set_target_path_names [OF c1] set_selection_names [OF c2]
      by (simp add: has_section_def)
    from add_credential_sections_fail [OF assms(1) this]
    obtain e where "append_credentials c2 additional_content = Inl e"
      by (auto simp: append_credentials_def)
    with c1 c2 show ?thesis by (simp add: new_config_file_def)
  qed
qed

subsection \<open>Files that are not rewritten\<close>

lemma new_config_file_frame:
  "new_config_file fs config_file field_name additional_content config_args temp_path = Inr fs'
     \<Longrightarrow> path \<noteq> config_file \<Longrightarrow> fs' path = fs path"
  by (auto simp: new_config_file_def write_config_def split: sum.splits)

lemma update_files_frame:
  "\<not> any_chunk_in files_to_update path \<Longrightarrow>
     snd (update_files fs field_name additional_content dates_data files_to_update temp_path
            all_files) path = fs path"
proof (induction all_files arbitrary: fs)
  case Nil
  then show ?case by simp
next
  case (Cons filename rest)
  show ?case
  proof (cases "any_chunk_in files_to_update filename")
    case False
    with Cons show ?thesis by simp
  next
    case True
    with Cons.prems have neq: "path \<noteq> filename" by auto
    show ?thesis
    proof (cases "new_config_file fs filename field_name additional_content
                (MonthDates.extend dates_data (ConfigArgs.fields (is_year_wise filename)))
                temp_path")
      case (Inl e)
      with True show ?thesis by simp
    next
      case (Inr fs')
      with True Cons.IH [OF Cons.prems, of fs'] new_config_file_frame [OF Inr neq]
      show ?thesis by simp
    qed
  qed
qed

lemma update_config_file_frame:
  assumes "\<And>files_to_update. map_of (FILES_TO_UPDATE ev) mode = Some files_to_update \<Longrightarrow>
             \<not> any_chunk_in files_to_update path"
  shows "snd (update_config_file ev today environ gs glob fs directory field_name mode temp_path)
           path = fs path"
  using assms
  by (auto simp: update_config_file_def Let_def update_files_frame
      split: sum.splits option.splits)

lemma generate_from_resolved:
  "list_all2 (resolves gs) keys secrets \<Longrightarrow>
     generate_from gs count keys acc = Inr (acc @ credential_text count secrets)"
proof (induction keys secrets arbitrary: count acc rule: list_all2_induct)
  case Nil
  then show ?case by simp
next
  case (Cons key keys secret secrets)
  obtain u k where secret: "secret = (u, k)" by (cases secret)
  from Cons.hyps(1) secret obtain d where "gs key = Inr d" "map_of d ''api_url'' = Some u"
    "map_of d ''api_key'' = Some k"
    by (auto simp: resolves_def split: sum.splits)
  then show ?case
    using Cons.IH [of "Suc count"] secret by (simp add: dict_lookup_def)
qed

lemma credential_block_segment:
  "credential_block count u k = block_segment count u k @ ''\<newline>\<newline>''"
  by (simp add: credential_block_def block_segment_def license_section_def)

lemma tight_block_segment:
  assumes "clean u" "clean k"
  shows "tight (block_segment count u k)"
proof -
  have "tight (license_section count)"
    by (rule tight_free) (rule license_section_no_newline)
  moreover have "tight ''\<newline>            api_url=''" by simp
  moreover have "tight u" "tight k" using assms by (simp_all add: clean_def tight_free)
  moreover have "tight ''\<newline>api_key=''" by simp
  ultimately show ?thesis
    unfolding block_segment_def by (intro tight_append)
qed

lemma split_credential_text:
  "\<forall>s \<in> set secrets. clean (fst s) \<and> clean (snd s) \<Longrightarrow>
     split_str ''\<newline>\<newline>'' (credential_text count secrets) = segments count secrets @ [[]]"
proof (induction secrets arbitrary: count)
  case Nil
  then show ?case by (simp add: split_str_def)
next
  case (Cons secret secrets)
  obtain u k where secret: "secret = (u, k)" by (cases secret)
  with Cons.prems have t: "tight (block_segment count u k)"
    by (simp add: tight_block_segment)
  from Cons.prems have rest: "\<forall>s \<in> set secrets. clean (fst s) \<and> clean (snd s)" by simp
  have "split_from ''\<newline>\<newline>'' [] (block_segment count u k @ ''\<newline>\<newline>'' @
          credential_text (Suc count) secrets) =
        block_segment count u k # split_from ''\<newline>\<newline>'' [] (credential_text (Suc count) secrets)"
    using split_from_blank_cut [OF t, where acc = "[]"] by simp
  with Cons.IH [OF rest, of "Suc count"] secret show ?case
    by (simp add: split_str_def credential_block_segment)
qed

lemma length_segments: "length (segments count secrets) = length secrets"
  by (induction count secrets rule: segments.induct) auto

lemma nth_segments:
  "i < length secrets \<Longrightarrow>
     segments count secrets ! i =
       block_segment (count + i) (fst (secrets ! i)) (snd (secrets ! i))"
proof (induction count secrets arbitrary: i rule: segments.induct)
  case (1 count)
  then show ?case by simp
next
  case (2 count api_url api_key rest)
  then show ?case by (cases i) auto
qed

lemma split_block_segment:
  assumes "clean u" "clean k"
  shows "split_str ''\<newline>'' (block_segment count u k) =
           [license_section count, ''            api_url='' @ u, ''api_key='' @ k]"
proof -
  have 1: "split_from ''\<newline>'' [] (license_section count @ CHR 0x0A #
             (''            api_url='' @ u @ ''\<newline>api_key='' @ k)) =
           license_section count #
             split_from ''\<newline>'' [] (''            api_url='' @ u @ ''\<newline>api_key='' @ k)"
    using split_from_single_cut [where c = "CHR 0x0A" and s = "license_section count" and acc = "[]"]
      license_section_no_newline [of count] by simp
  have "CHR 0x0A \<notin> set (''            api_url='' @ u)" using assms by (simp add: clean_def)
  from split_from_single_cut [OF this, where acc = "[]" and rest = "''api_key='' @ k"]
  have 2: "split_from ''\<newline>'' [] (''            api_url='' @ u @ ''\<newline>api_key='' @ k) =
           (''            api_url='' @ u) # split_from ''\<newline>'' [] (''api_key='' @ k)"
    by simp
  have "CHR 0x0A \<notin> set (''api_key='' @ k)" using assms by (simp add: clean_def)
  from split_from_single_free [OF this, where acc = "[]"]
  have 3: "split_from ''\<newline>'' [] (''api_key='' @ k) = [''api_key='' @ k]" by simp
  show ?thesis
    using 1 2 3 by (simp add: split_str_def block_segment_def)
qed

lemma section_name_of_block:
  "clean u \<Longrightarrow> clean k \<Longrightarrow> section_name_of (block_segment count u k) = license_section count"
  by (simp add: section_name_of_def split_block_segment strip_license_section)

lemma split_option_line:
  assumes "CHR ''='' \<notin> set name" "no_equals v"
  shows "unpack2 (split_str ''='' (name @ ''='' @ v)) = Inr (name, v)"
proof -
  have "split_from ''='' [] (name @ CHR ''='' # v) = name # split_from ''='' [] v"
    using split_from_single_cut [OF assms(1), where acc = "[]" and rest = v] by simp
  moreover have "split_from ''='' [] v = [v]"
    using split_from_single_free [where c = "CHR ''=''" and s = v and acc = "[]"] assms(2)
    by (simp add: no_equals_def)
  ultimately show ?thesis by (simp add: split_str_def unpack2_def)
qed

lemma strip_api_url: "strip ''            api_url'' = ''api_url''"
  by (simp add: strip_def is_space_def)

lemma strip_api_key: "strip ''api_key'' = ''api_key''"
  by (simp add: strip_def is_space_def)

lemma optionxform_api_url: "optionxform ''api_url'' = ''api_url''"
  by (simp add: optionxform_def lower_def lower_char_def)

lemma optionxform_api_key: "optionxform ''api_key'' = ''api_key''"
  by (simp add: optionxform_def lower_def lower_char_def)

lemma add_credential_section_block:
  assumes cl: "clean u" "clean k" and ne: "no_equals u" "no_equals k"
    and fresh: "\<not> has_section cfg (license_section count)"
  shows "add_credential_section cfg (block_segment count u k) =
           Inr (cfg\<lparr>sections := sections cfg @
                  [(license_section count,
                    [(''api_url'', strip u), (''api_key'', strip k)])]\<rparr>)"
proof -
  obtain ds secs where cfg: "cfg = \<lparr>defaults = ds, sections = secs\<rparr>" by (cases cfg) simp
  let ?name = "license_section count"
  let ?lines = "[?name, ''            api_url='' @ u, ''api_key='' @ k]"
  have lines: "split_str ''\<newline>'' (block_segment count u k) = ?lines"
    by (rule split_block_segment [OF cl])
  from fresh cfg have notin: "?name \<notin> fst ` set secs" by (simp add: has_section_def)
  have c1: "add_section cfg ?name = Inr \<lparr>defaults = ds, sections = secs @ [(?name, [])]\<rparr>"
    using fresh cfg by (simp add: add_section_def license_section_not_default)
  have l1: "unpack2 (split_str ''='' (''            api_url='' @ u)) = Inr (''            api_url'', u)"
    using split_option_line [of "''            api_url''" u] ne(1) by simp
  have l2: "unpack2 (split_str ''='' (''api_key='' @ k)) = Inr (''api_key'', k)"
    using split_option_line [of "''api_key''" k] ne(2) by simp
  have c2: "set_from_line \<lparr>defaults = ds, sections = secs @ [(?name, [])]\<rparr> ?name ?lines 1 =
              Inr \<lparr>defaults = ds, sections = secs @ [(?name, [(''api_url'', strip u)])]\<rparr>"
    using config_set_last [OF license_section_not_Nil license_section_not_default notin,
        where opts = "[]" and ds = ds and option = "''api_url''" and v = "strip u"] l1
    by (simp add: set_from_line_def index_def strip_api_url optionxform_api_url)
  have c3: "set_from_line \<lparr>defaults = ds, sections = secs @ [(?name, [(''api_url'', strip u)])]\<rparr>
              ?name ?lines 2 =
              Inr \<lparr>defaults = ds, sections = secs @
                    [(?name, [(''api_url'', strip u), (''api_key'', strip k)])]\<rparr>"
    using config_set_last [OF license_section_not_Nil license_section_not_default notin,
        where opts = "[(''api_url'', strip u)]" and ds = ds and option = "''api_key''"
          and v = "strip k"] l2
    by (simp add: set_from_line_def index_def strip_api_key optionxform_api_key)
  show ?thesis
    using c1 c2 c3 unfolding add_credential_section_def lines Let_def
    by (simp add: index_def strip_license_section cfg)
qed

lemma add_credential_sections_blocks:
  assumes "list_all well_formed secrets"
    and "\<forall>i < length secrets. \<not> has_section cfg (license_section (count + i))"
  shows "add_credential_sections cfg (segments count secrets) =
           Inr (cfg\<lparr>sections := sections cfg @ credential_sections count secrets\<rparr>)"
  using assms
proof (induction secrets arbitrary: cfg count)
  case Nil
  then show ?case by simp
next
  case (Cons secret secrets)
  obtain u k where secret: "secret = (u, k)" by (cases secret)
  let ?c1 = "cfg\<lparr>sections := sections cfg @
                  [(license_section count, [(''api_url'', strip u), (''api_key'', strip k)])]\<rparr>"
  from Cons.prems(1) secret have wfs: "well_formed (u, k)"
    and rest: "list_all well_formed secrets"
    by simp_all
  from wfs have wf: "clean u" "clean k" "no_equals u" "no_equals k"
    by (simp_all add: well_formed_def)
  from Cons.prems(2) have "\<not> has_section cfg (license_section (count + 0))" by blast
  then have fresh: "\<not> has_section cfg (license_section count)" by simp
  have step: "add_credential_section cfg (block_segment count u k) = Inr ?c1"
    by (rule add_credential_section_block [OF wf fresh])
  have "\<forall>i < length secrets. \<not> has_section ?c1 (license_section (Suc count + i))"
  proof (intro allI impI)
    fix i assume "i < length secrets"
    then have "\<not> has_section cfg (license_section (count + Suc i))"
      using Cons.prems(2) by auto
    moreover have "license_section (Suc count + i) \<noteq> license_section count"
      using license_section_inj [of "Suc count + i" count] by auto
    ultimately show "\<not> has_section ?c1 (license_section (Suc count + i))"
      by (simp add: has_section_def)
  qed
  from Cons.IH [OF rest this] step secret show ?case by simp
qed

subsection \<open>Removing the sections\<close>



lemma length_credential_sections: "length (credential_sections count secrets) = length secrets"
  by (induction count secrets rule: credential_sections.induct) auto


section \<open>The claims about the configuration files\<close>

lemma files_to_update_daily:
  "map_of (FILES_TO_UPDATE sample_values) ''daily'' = Some [''dve'', ''o3q'', ''qrqs'', ''tw'', ''pl'', ''sl'']"
  by (simp add: FILES_TO_UPDATE_def sample_values_def)

lemma notes_unmatched:
  "\<not> any_chunk_in [''dve'', ''o3q'', ''qrqs'', ''tw'', ''pl'', ''sl''] ''cfg/daily/notes.cfg''"
  by (simp add: any_chunk_in_def)

lemma pl_run:
 "fst (update_config_file sample_values \<lparr>year = 2024, month = 3, day = 10\<rparr> sample_environ
   sample_secret_manager sample_glob sample_files ''cfg'' ''date'' ''daily'' None) = None"
  by code_simp

lemma pl_run2:
 "snd (update_config_file sample_values \<lparr>year = 2024, month = 3, day = 10\<rparr> sample_environ
   sample_secret_manager sample_glob sample_files ''cfg'' ''date'' ''daily'' None) ''cfg/daily/era5_pl.cfg'' \<noteq> Some sample_config"
  by code_simp

lemma files_to_update_modes:
  assumes "inj ev"
  shows "map_of (FILES_TO_UPDATE ev) (ev ERA5) =
           Some [''dve'', ''o3q'', ''qrqs'', ''tw'', ''pl'', ''sl'', ''lnsp'', ''zs'', ''sfc'']"
    and "map_of (FILES_TO_UPDATE ev) (ev ERA5T_DAILY) =
           Some [''dve'', ''o3q'', ''qrqs'', ''tw'', ''pl'', ''sl'']"
    and "map_of (FILES_TO_UPDATE ev) (ev ERA5T_MONTHLY) = Some [''lnsp'', ''zs'', ''sfc'']"
  using assms by (auto simp: FILES_TO_UPDATE_def inj_def)

text \<open>
  C3, as the code has it. The loop tests \<open>chunk in filename\<close> on the path \<open>glob\<close>
  returned, directory part included. So, whatever the mode, a discovered file whose
  path contains none of the fragments \<open>FILES_TO_UPDATE\<close> lists for the mode is the same
  after \<open>update_config_file\<close> as before: the loop never opens it for writing, also when
  the run ends in an exception. The table of fragments per mode is lemma
  \<open>files_to_update_modes\<close>.
\<close>

theorem unmatched_file_untouched:
  assumes "map_of (FILES_TO_UPDATE ev) mode = Some files_to_update"
    and "\<not> any_chunk_in files_to_update filename"
  shows "snd (update_config_file ev today environ gs glob fs directory field_name mode temp_path)
           filename = fs filename"
  using assms by (intro update_config_file_frame) simp

theorem unmatched_file_untouched_witness:
  "snd (update_config_file sample_values \<lparr>year = 2024, month = 3, day = 10\<rparr> sample_environ
          sample_secret_manager sample_glob sample_files ''cfg'' ''date'' ''daily'' None)
     ''cfg/daily/notes.cfg'' = Some sample_config \<and>
   snd (update_config_file sample_values \<lparr>year = 2024, month = 3, day = 10\<rparr> sample_environ
          sample_secret_manager sample_glob sample_files ''cfg'' ''date'' ''daily'' None)
     ''cfg/daily/era5_pl.cfg'' \<noteq> Some sample_config"
proof
  show "snd (update_config_file sample_values \<lparr>year = 2024, month = 3, day = 10\<rparr> sample_environ
          sample_secret_manager sample_glob sample_files ''cfg'' ''date'' ''daily'' None)
     ''cfg/daily/notes.cfg'' = Some sample_config"
    using unmatched_file_untouched [OF files_to_update_daily notes_unmatched]
    by (simp add: sample_files_def)
  show "snd (update_config_file sample_values \<lparr>year = 2024, month = 3, day = 10\<rparr> sample_environ
          sample_secret_manager sample_glob sample_files ''cfg'' ''date'' ''daily'' None)
     ''cfg/daily/era5_pl.cfg'' \<noteq> Some sample_config"
    by code_simp
qed

lemma basename_notes: "basename ''templates/daily/notes.cfg'' = ''notes.cfg''"
  by (simp add: basename_def)

lemma notes_name_unmatched:
  "\<not> any_chunk_in [''dve'', ''o3q'', ''qrqs'', ''tw'', ''pl'', ''sl''] ''notes.cfg''"
  by (simp add: any_chunk_in_def)

lemma templates_run:
  "snd (update_config_file sample_values \<lparr>year = 2024, month = 3, day = 10\<rparr> sample_environ
          sample_secret_manager templates_glob templates_files ''templates'' ''date'' ''daily''
          None) ''templates/daily/notes.cfg'' \<noteq> Some sample_config"
  by code_simp

text \<open>
  A file whose name holds no fragment is still rewritten when its directory does: in the
  mode \<open>daily\<close> the name \<open>notes.cfg\<close> has none of the fragments, the path
  \<open>templates/daily/notes.cfg\<close> has \<open>pl\<close>, and the file is not the same after the run.
\<close>

theorem unmatched_name_counterexample:
  "map_of (FILES_TO_UPDATE sample_values) ''daily'' =
     Some [''dve'', ''o3q'', ''qrqs'', ''tw'', ''pl'', ''sl''] \<and>
   \<not> any_chunk_in [''dve'', ''o3q'', ''qrqs'', ''tw'', ''pl'', ''sl'']
       (basename ''templates/daily/notes.cfg'') \<and>
   snd (update_config_file sample_values \<lparr>year = 2024, month = 3, day = 10\<rparr> sample_environ
          sample_secret_manager templates_glob templates_files ''templates'' ''date'' ''daily''
          None) ''templates/daily/notes.cfg'' \<noteq>
     templates_files ''templates/daily/notes.cfg''"
  using templates_run
  by (simp add: files_to_update_daily basename_notes notes_name_unmatched templates_files_def)

subsection \<open>The selection of a rewritten file\<close>

lemma is_digit_zero: "is_digit CHR ''0''"
  by (simp add: is_digit_def)

lemma zero_pad_digits: "list_all is_digit (zero_pad w n)"
  by (auto simp: zero_pad_def Let_def list_all_iff str_nat_digits is_digit_zero)

lemma iso_form_str_date:
  assumes "valid_date dt"
  shows "iso_form (str_date dt)"
proof -
  note len = valid_date_lengths [OF assms]
  have s: "str_date dt =
    zero_pad 4 (year dt) @ CHR ''-'' # zero_pad 2 (month dt) @ CHR ''-'' # zero_pad 2 (day dt)"
    by (simp add: str_date_def)
  show ?thesis
    unfolding iso_form_def s
    using len zero_pad_digits [of 4 "year dt"] zero_pad_digits [of 2 "month dt"]
      zero_pad_digits [of 2 "day dt"]
    by (simp add: nth_append)
qed

lemma map_of_dict_set_apply:
  "map_of (dict_set k v xs) k' = (if k' = k then Some v else map_of xs k')"
  by (simp add: map_of_dict_set)

lemma config_set_section:
  assumes "config_set cfg section option v = Inr cfg'"
    and "section \<noteq> []" and "section \<noteq> default_section"
  shows "\<exists>old. map_of (sections cfg) section = Some old \<and>
           map_of (sections cfg') section = Some (dict_set (optionxform option) v old)"
  using assms
  by (auto simp: config_set_def map_of_dict_set split: option.splits)

lemma optionxform_year: "optionxform ''year'' = ''year''"
  by (simp add: optionxform_def lower_def lower_char_def)

lemma optionxform_month: "optionxform ''month'' = ''month''"
  by (simp add: optionxform_def lower_def lower_char_def)

lemma optionxform_day: "optionxform ''day'' = ''day''"
  by (simp add: optionxform_def lower_def lower_char_def)

lemma selection_not_default: "''selection'' \<noteq> default_section" "''selection'' \<noteq> []"
  by (simp_all add: default_section_def)

lemma set_selection_section:
  assumes "set_selection cfg field_name config_args = Inr cfg'"
  shows "\<exists>old. map_of (sections cfg) ''selection'' = Some old \<and>
           map_of (sections cfg') ''selection'' =
             Some (if year_wise_date config_args
                   then dict_set ''day'' ''all''
                          (dict_set ''month'' (sl_month config_args)
                             (dict_set ''year'' (sl_year config_args) old))
                   else dict_set (optionxform field_name)
                          (str_date (first_day config_args) @ ''/to/'' @
                           str_date (last_day config_args)) old)"
proof (cases "year_wise_date config_args")
  case False
  with assms config_set_section [OF _ selection_not_default(2,1)] show ?thesis
    by (simp add: set_selection_def)
next
  case True
  with assms obtain c1 c2 where
    c1: "config_set cfg ''selection'' ''year'' (sl_year config_args) = Inr c1"
    and c2: "config_set c1 ''selection'' ''month'' (sl_month config_args) = Inr c2"
    and c3: "config_set c2 ''selection'' ''day'' ''all'' = Inr cfg'"
    by (auto simp: set_selection_def split: sum.splits)
  from config_set_section [OF c1 selection_not_default(2,1)]
    config_set_section [OF c2 selection_not_default(2,1)]
    config_set_section [OF c3 selection_not_default(2,1)] True
  show ?thesis
    by (auto simp: optionxform_year optionxform_month optionxform_day)
qed

lemma set_target_path_selection:
  "set_target_path cfg temp_path = Inr cfg' \<Longrightarrow>
     map_of (sections cfg') ''selection'' = map_of (sections cfg) ''selection''"
  by (auto simp: set_target_path_def split: option.splits if_splits sum.splits
      dest: config_set_other [where name = "''selection''"])

lemma add_credential_sections_other:
  "add_credential_sections cfg segs = Inr cfg' \<Longrightarrow> has_section cfg name \<Longrightarrow>
     map_of (sections cfg') name = map_of (sections cfg) name"
proof (induction segs arbitrary: cfg)
  case Nil
  then show ?case by simp
next
  case (Cons s segs)
  from Cons.prems(1) obtain c1 where
    c1: "add_credential_section cfg s = Inr c1" and rest: "add_credential_sections c1 segs = Inr cfg'"
    by (auto split: sum.splits)
  have "has_section c1 name"
    using add_credential_section_names(1) [OF c1] Cons.prems(2) by (simp add: has_section_def)
  from Cons.IH [OF rest this] add_credential_section_other [OF c1 Cons.prems(2)]
  show ?case by simp
qed

lemma new_config_file_selection:
  assumes "new_config_file fs config_file field_name additional_content config_args temp_path
             = Inr fs'"
  shows "\<exists>old cfg'. map_of (sections (read_config fs config_file)) ''selection'' = Some old \<and>
           fs' config_file = Some cfg' \<and>
           map_of (sections cfg') ''selection'' =
             Some (if year_wise_date config_args
                   then dict_set ''day'' ''all''
                          (dict_set ''month'' (sl_month config_args)
                             (dict_set ''year'' (sl_year config_args) old))
                   else dict_set (optionxform field_name)
                          (str_date (first_day config_args) @ ''/to/'' @
                           str_date (last_day config_args)) old)"
proof -
  from assms obtain c1 c2 c3 where
    c1: "set_target_path (read_config fs config_file) temp_path = Inr c1"
    and c2: "set_selection c1 field_name config_args = Inr c2"
    and c3: "add_credential_sections c2
               (butlast (split_str ''\<newline>\<newline>'' additional_content)) = Inr c3"
    and fs': "fs' = write_config fs config_file c3"
    by (auto simp: new_config_file_def append_credentials_def split: sum.splits)
  from set_selection_section [OF c2] obtain old where
    old: "map_of (sections c1) ''selection'' = Some old"
    and new: "map_of (sections c2) ''selection'' =
             Some (if year_wise_date config_args
                   then dict_set ''day'' ''all''
                          (dict_set ''month'' (sl_month config_args)
                             (dict_set ''year'' (sl_year config_args) old))
                   else dict_set (optionxform field_name)
                          (str_date (first_day config_args) @ ''/to/'' @
                           str_date (last_day config_args)) old)"
    by blast
  from new have "has_section c2 ''selection''"
    by (auto simp: has_section_def dest: map_of_Some_in_keys)
  from add_credential_sections_other [OF c3 this] new old set_target_path_selection [OF c1] fs'
  show ?thesis by (simp add: write_config_def)
qed

lemma update_files_absent:
  "path \<notin> set all_files \<Longrightarrow>
     snd (update_files fs field_name additional_content dates_data files_to_update temp_path
            all_files) path = fs path"
proof (induction all_files arbitrary: fs)
  case Nil
  then show ?case by simp
next
  case (Cons filename rest)
  then have neq: "path \<noteq> filename" and notin: "path \<notin> set rest" by auto
  show ?case
  proof (cases "any_chunk_in files_to_update filename")
    case False
    with Cons.IH [OF notin] show ?thesis by simp
  next
    case True
    show ?thesis
    proof (cases "new_config_file fs filename field_name additional_content
                (MonthDates.extend dates_data (ConfigArgs.fields (is_year_wise filename)))
                temp_path")
      case (Inl e)
      with True show ?thesis by simp
    next
      case (Inr fs1)
      with True Cons.IH [OF notin, of fs1] new_config_file_frame [OF Inr neq]
      show ?thesis by simp
    qed
  qed
qed

lemma new_config_file_reads:
  "fs1 config_file = fs config_file \<Longrightarrow>
     map_sum id (\<lambda>f. f config_file)
       (new_config_file fs1 config_file field_name additional_content config_args temp_path) =
     map_sum id (\<lambda>f. f config_file)
       (new_config_file fs config_file field_name additional_content config_args temp_path)"
  by (simp add: new_config_file_def read_config_def write_config_def split: sum.splits)

lemma update_files_turn:
  assumes "update_files fs field_name additional_content dates_data files_to_update temp_path
             all_files = (None, fs')"
    and "distinct all_files" and "filename \<in> set all_files"
    and "any_chunk_in files_to_update filename"
  shows "\<exists>fs2. new_config_file fs filename field_name additional_content
                (MonthDates.extend dates_data (ConfigArgs.fields (is_year_wise filename)))
                temp_path = Inr fs2 \<and> fs' filename = fs2 filename"
  using assms
proof (induction all_files arbitrary: fs)
  case Nil
  then show ?case by simp
next
  case (Cons g rest)
  show ?case
  proof (cases "g = filename")
    case True
    with Cons.prems(1,4) obtain fs2 where
      run: "new_config_file fs filename field_name additional_content
                (MonthDates.extend dates_data (ConfigArgs.fields (is_year_wise filename)))
                temp_path = Inr fs2"
      and rest: "update_files fs2 field_name additional_content dates_data files_to_update
                temp_path rest = (None, fs')"
      by (auto split: sum.splits)
    from Cons.prems(2) True have "filename \<notin> set rest" by simp
    from update_files_absent [OF this, of fs2 field_name additional_content dates_data
        files_to_update temp_path] rest
    have "fs' filename = fs2 filename" by simp
    with run show ?thesis by blast
  next
    case False
    with Cons.prems(3) have mem: "filename \<in> set rest" by simp
    from Cons.prems(2) have dist: "distinct rest" by simp
    show ?thesis
    proof (cases "any_chunk_in files_to_update g")
      case no: False
      with Cons.prems(1) have "update_files fs field_name additional_content dates_data
          files_to_update temp_path rest = (None, fs')" by simp
      from Cons.IH [OF this dist mem Cons.prems(4)] show ?thesis .
    next
      case yes: True
      with Cons.prems(1) obtain fsg where
        g: "new_config_file fs g field_name additional_content
                (MonthDates.extend dates_data (ConfigArgs.fields (is_year_wise g)))
                temp_path = Inr fsg"
        and rest: "update_files fsg field_name additional_content dates_data files_to_update
                temp_path rest = (None, fs')"
        by (auto split: sum.splits)
      from Cons.IH [OF rest dist mem Cons.prems(4)] obtain fs2 where
        run: "new_config_file fsg filename field_name additional_content
                (MonthDates.extend dates_data (ConfigArgs.fields (is_year_wise filename)))
                temp_path = Inr fs2" and eq: "fs' filename = fs2 filename"
        by blast
      have same: "fsg filename = fs filename"
        using new_config_file_frame [OF g] False by simp
      from new_config_file_reads [where ?fs1.0 = fsg and fs = fs and config_file = filename
          and field_name = field_name and additional_content = additional_content
          and config_args = "MonthDates.extend dates_data (ConfigArgs.fields (is_year_wise filename))"
          and temp_path = temp_path, OF same]
        run
      obtain fs3 where "new_config_file fs filename field_name additional_content
                (MonthDates.extend dates_data (ConfigArgs.fields (is_year_wise filename)))
                temp_path = Inr fs3" and "fs3 filename = fs2 filename"
        by (cases "new_config_file fs filename field_name additional_content
                (MonthDates.extend dates_data (ConfigArgs.fields (is_year_wise filename)))
                temp_path") auto
      with eq show ?thesis by auto
    qed
  qed
qed

lemma selection_of_written:
  "fs path = Some cfg \<Longrightarrow> map_of (sections cfg) ''selection'' = Some d \<Longrightarrow>
     selection_of fs path option = map_of d option"
  by (simp add: selection_of_def read_config_def)

lemma selection_of_read:
  "map_of (sections (read_config fs path)) ''selection'' = Some d \<Longrightarrow>
     selection_of fs path option = map_of d option"
  by (simp add: selection_of_def)

text \<open>
  C4, as the code has it. For every file that a run of the loop without error has
  rewritten (its path is among the discovered ones and holds a fragment of the mode):
  if the path holds \<open>lnsp\<close>, \<open>zs\<close> or \<open>sfc\<close>, the \<open>selection\<close> section of the file has
  \<open>year\<close> and \<open>month\<close> of the window and \<open>day = all\<close>, and every other option of the
  section, the date-range field with them, is as it was; otherwise the option
  \<open>field_name\<close> of the section is \<open><first_day>/to/<last_day>\<close>, both dates in the form
  \<open>YYYY-MM-DD\<close>, and every other option of the section is as it was. The test is on the
  path that \<open>glob\<close> returned, directory included, not on the name of the file.
\<close>

theorem selection_rewritten:
  assumes "update_files fs field_name additional_content dates_data files_to_update temp_path
             all_files = (None, fs')"
    and "distinct all_files" and "filename \<in> set all_files"
    and "any_chunk_in files_to_update filename"
    and "valid_date (first_day dates_data)" and "valid_date (last_day dates_data)"
  shows "if contains ''lnsp'' filename \<or> contains ''zs'' filename \<or> contains ''sfc'' filename
         then selection_of fs' filename ''year'' = Some (sl_year dates_data) \<and>
              selection_of fs' filename ''month'' = Some (sl_month dates_data) \<and>
              selection_of fs' filename ''day'' = Some ''all'' \<and>
              (\<forall>opt. opt \<notin> {''year'', ''month'', ''day''} \<longrightarrow>
                 selection_of fs' filename opt = selection_of fs filename opt)
         else selection_of fs' filename (optionxform field_name) =
                Some (str_date (first_day dates_data) @ ''/to/'' @
                      str_date (last_day dates_data)) \<and>
              iso_form (str_date (first_day dates_data)) \<and>
              iso_form (str_date (last_day dates_data)) \<and>
              (\<forall>opt. opt \<noteq> optionxform field_name \<longrightarrow>
                 selection_of fs' filename opt = selection_of fs filename opt)"
proof -
  let ?args = "MonthDates.extend dates_data (ConfigArgs.fields (is_year_wise filename))"
  from update_files_turn [OF assms(1-4)] obtain fs2 where
    run: "new_config_file fs filename field_name additional_content ?args temp_path = Inr fs2"
    and same: "fs' filename = fs2 filename"
    by blast
  have args: "year_wise_date ?args = is_year_wise filename" "sl_year ?args = sl_year dates_data"
    "sl_month ?args = sl_month dates_data" "first_day ?args = first_day dates_data"
    "last_day ?args = last_day dates_data"
    by (simp_all add: MonthDates.defs ConfigArgs.defs)
  from new_config_file_selection [OF run] obtain old cfg' where
    old: "map_of (sections (read_config fs filename)) ''selection'' = Some old"
    and cfg': "fs2 filename = Some cfg'"
    and new: "map_of (sections cfg') ''selection'' =
             Some (if is_year_wise filename
                   then dict_set ''day'' ''all''
                          (dict_set ''month'' (sl_month dates_data)
                             (dict_set ''year'' (sl_year dates_data) old))
                   else dict_set (optionxform field_name)
                          (str_date (first_day dates_data) @ ''/to/'' @
                           str_date (last_day dates_data)) old)"
    unfolding args by blast
  from cfg' same have written: "fs' filename = Some cfg'" by simp
  note before = selection_of_read [OF old]
  show ?thesis
  proof (cases "is_year_wise filename")
    case True
    with new have "map_of (sections cfg') ''selection'' =
        Some (dict_set ''day'' ''all''
               (dict_set ''month'' (sl_month dates_data)
                  (dict_set ''year'' (sl_year dates_data) old)))"
      by simp
    note after = selection_of_written [where fs = fs' and path = filename, OF written this]
    from True show ?thesis
      by (simp add: is_year_wise_def after before map_of_dict_set_apply)
  next
    case False
    with new have "map_of (sections cfg') ''selection'' =
        Some (dict_set (optionxform field_name)
                (str_date (first_day dates_data) @ ''/to/'' @ str_date (last_day dates_data))
                old)"
      by simp
    note after = selection_of_written [where fs = fs' and path = filename, OF written this]
    from False show ?thesis
      by (simp add: is_year_wise_def after before map_of_dict_set_apply
          iso_form_str_date [OF assms(5)] iso_form_str_date [OF assms(6)])
  qed
qed

lemma era5_run_ok: "fst era5_run = None"
  by code_simp

lemma lnsp_matches: "any_chunk_in era5_fragments ''cfg/single/era5_lnsp.cfg''"
  by code_simp

lemma pl_matches: "any_chunk_in era5_fragments ''cfg/single/era5_pl.cfg''"
  by code_simp

lemma lnsp_year_wise: "is_year_wise ''cfg/single/era5_lnsp.cfg''"
  by code_simp

lemma pl_not_year_wise: "\<not> is_year_wise ''cfg/single/era5_pl.cfg''"
  by code_simp

lemma optionxform_date: "optionxform ''date'' = ''date''"
  by (simp add: optionxform_def lower_def lower_char_def)

lemma str_date_2024_02_01: "str_date \<lparr>year = 2024, month = 2, day = 1\<rparr> = ''2024-02-01''"
  by (simp add: str_date_def zero_pad_def str_nat_step str_nat_digit digit_char_def)

lemma str_date_2024_02_29: "str_date \<lparr>year = 2024, month = 2, day = 29\<rparr> = ''2024-02-29''"
  by (simp add: str_date_def zero_pad_def str_nat_step str_nat_digit digit_char_def)

lemma valid_2024_02_29: "valid_date \<lparr>year = 2024, month = 2, day = 29\<rparr>"
  by (simp add: valid_date_def MINYEAR_def MAXYEAR_def days_in_month_def is_leap_def)

lemma era5_before:
  "selection_of era5_files ''cfg/single/era5_lnsp.cfg'' ''date'' = Some ''2020-01-01/to/2020-01-31''"
  "selection_of era5_files ''cfg/single/era5_pl.cfg'' ''year'' = None"
  by (simp_all add: selection_of_def read_config_def era5_files_def year_wise_config_def
      sample_config_def)

theorem selection_rewritten_witness:
  "selection_of (snd era5_run) ''cfg/single/era5_lnsp.cfg'' ''year'' = Some ''2024'' \<and>
   selection_of (snd era5_run) ''cfg/single/era5_lnsp.cfg'' ''month'' = Some ''02'' \<and>
   selection_of (snd era5_run) ''cfg/single/era5_lnsp.cfg'' ''day'' = Some ''all'' \<and>
   selection_of (snd era5_run) ''cfg/single/era5_lnsp.cfg'' ''date'' =
     Some ''2020-01-01/to/2020-01-31'' \<and>
   selection_of (snd era5_run) ''cfg/single/era5_pl.cfg'' ''date'' =
     Some ''2024-02-01/to/2024-02-29'' \<and>
   selection_of (snd era5_run) ''cfg/single/era5_pl.cfg'' ''year'' = None"
proof -
  have run: "update_files era5_files ''date'' (credential_text 0 sample_secrets) february_2024
       era5_fragments None era5_paths = (None, snd era5_run)"
    using era5_run_ok by (simp add: era5_run_def prod_eq_iff)
  have dist: "distinct era5_paths"
    and lnsp: "''cfg/single/era5_lnsp.cfg'' \<in> set era5_paths"
    and pl: "''cfg/single/era5_pl.cfg'' \<in> set era5_paths"
    by (simp_all add: era5_paths_def)
  have first: "valid_date (first_day february_2024)"
    and last: "valid_date (last_day february_2024)"
    by (simp_all add: february_2024_def valid_2024_02_01 valid_2024_02_29)
  from selection_rewritten [OF run dist lnsp lnsp_matches first last] lnsp_year_wise
  have year_wise:
    "selection_of (snd era5_run) ''cfg/single/era5_lnsp.cfg'' ''year'' = Some ''2024''"
    "selection_of (snd era5_run) ''cfg/single/era5_lnsp.cfg'' ''month'' = Some ''02''"
    "selection_of (snd era5_run) ''cfg/single/era5_lnsp.cfg'' ''day'' = Some ''all''"
    "selection_of (snd era5_run) ''cfg/single/era5_lnsp.cfg'' ''date'' =
       selection_of era5_files ''cfg/single/era5_lnsp.cfg'' ''date''"
    by (simp_all add: is_year_wise_def february_2024_def)
  from selection_rewritten [OF run dist pl pl_matches first last] pl_not_year_wise
  have range:
    "selection_of (snd era5_run) ''cfg/single/era5_pl.cfg'' ''date'' =
       Some ''2024-02-01/to/2024-02-29''"
    "selection_of (snd era5_run) ''cfg/single/era5_pl.cfg'' ''year'' =
       selection_of era5_files ''cfg/single/era5_pl.cfg'' ''year''"
    by (simp_all add: is_year_wise_def february_2024_def optionxform_date str_date_2024_02_01
        str_date_2024_02_29)
  from year_wise range show ?thesis
    by (simp only: era5_before simp_thms)
qed

lemma zs_basename: "basename ''zs/daily/era5_pl.cfg'' = ''era5_pl.cfg''"
  by (simp add: basename_def)

lemma zs_name: "\<not> is_year_wise ''era5_pl.cfg''"
  by code_simp

lemma zs_run_ok: "fst zs_run = None"
  by code_simp

lemma zs_run_selection:
  "selection_of (snd zs_run) ''zs/daily/era5_pl.cfg'' ''date'' = Some ''2020-01-01/to/2020-01-31''"
  "selection_of (snd zs_run) ''zs/daily/era5_pl.cfg'' ''year'' = Some ''2024''"
  "selection_of (snd zs_run) ''zs/daily/era5_pl.cfg'' ''month'' = Some ''03''"
  "selection_of (snd zs_run) ''zs/daily/era5_pl.cfg'' ''day'' = Some ''all''"
  by code_simp+

text \<open>
  The form is chosen by the path, not by the name: in the mode \<open>daily\<close> the file
  \<open>zs/daily/era5_pl.cfg\<close> is eligible by \<open>pl\<close>, its name has none of \<open>lnsp\<close>, \<open>zs\<close>,
  \<open>sfc\<close>, and the run gives it \<open>year\<close>, \<open>month\<close> and \<open>day\<close> and leaves its \<open>date\<close> as
  it was, where the window of the run is \<open>2024-03-04\<close>.
\<close>

theorem year_wise_by_directory_counterexample:
  "basename ''zs/daily/era5_pl.cfg'' = ''era5_pl.cfg'' \<and>
   \<not> contains ''lnsp'' ''era5_pl.cfg'' \<and> \<not> contains ''zs'' ''era5_pl.cfg'' \<and>
   \<not> contains ''sfc'' ''era5_pl.cfg'' \<and>
   fst zs_run = None \<and>
   snd zs_run ''zs/daily/era5_pl.cfg'' \<noteq> zs_files ''zs/daily/era5_pl.cfg'' \<and>
   selection_of (snd zs_run) ''zs/daily/era5_pl.cfg'' ''date'' \<noteq>
     Some ''2024-03-04/to/2024-03-04'' \<and>
   selection_of (snd zs_run) ''zs/daily/era5_pl.cfg'' ''date'' =
     selection_of zs_files ''zs/daily/era5_pl.cfg'' ''date'' \<and>
   selection_of (snd zs_run) ''zs/daily/era5_pl.cfg'' ''year'' = Some ''2024'' \<and>
   selection_of (snd zs_run) ''zs/daily/era5_pl.cfg'' ''month'' = Some ''03'' \<and>
   selection_of (snd zs_run) ''zs/daily/era5_pl.cfg'' ''day'' = Some ''all''"
proof -
  have before: "selection_of zs_files ''zs/daily/era5_pl.cfg'' ''date'' =
      Some ''2020-01-01/to/2020-01-31''"
    "selection_of zs_files ''zs/daily/era5_pl.cfg'' ''year'' = None"
    by (simp_all add: selection_of_def read_config_def zs_files_def sample_config_def)
  have changed: "snd zs_run ''zs/daily/era5_pl.cfg'' \<noteq> zs_files ''zs/daily/era5_pl.cfg''"
  proof
    assume "snd zs_run ''zs/daily/era5_pl.cfg'' = zs_files ''zs/daily/era5_pl.cfg''"
    then have "selection_of (snd zs_run) ''zs/daily/era5_pl.cfg'' ''year'' =
        selection_of zs_files ''zs/daily/era5_pl.cfg'' ''year''"
      by (simp add: selection_of_def read_config_def)
    with zs_run_selection(2) before(2) show False by simp
  qed
  from zs_name have name: "\<not> contains ''lnsp'' ''era5_pl.cfg''"
    "\<not> contains ''zs'' ''era5_pl.cfg''" "\<not> contains ''sfc'' ''era5_pl.cfg''"
    by (simp_all add: is_year_wise_def)
  from zs_basename name zs_run_ok changed zs_run_selection before(1) show ?thesis
    by (simp only: simp_thms) simp
qed

text \<open>
  C8. When the steps before the appending succeed and the blocks before a block are
  appended without error, a block whose first line names a section the configuration
  file already has makes \<open>new_config_file\<close> end with \<open>DuplicateSectionError\<close> for that
  name: \<open>add_section\<close> raises it, nothing checks before, and the file is not written.
  (Lemma \<open>new_config_file_fail\<close>: with such a block anywhere in the text, the call
  never succeeds.)
\<close>

theorem duplicate_section_aborts:
  assumes "set_target_path (read_config fs config_file) temp_path = Inr c1"
    and "set_selection c1 field_name config_args = Inr c2"
    and "butlast (split_str ''\<newline>\<newline>'' additional_content) = pre @ section # post"
    and "add_credential_sections c2 pre = Inr c3"
    and "has_section (read_config fs config_file) (section_name_of section)"
    and "section_name_of section \<noteq> default_section"
  shows "new_config_file fs config_file field_name additional_content config_args temp_path =
           Inl (DuplicateSectionError (section_name_of section))"
proof -
  have "has_section c2 (section_name_of section)"
    using assms(5) set_target_path_names [OF assms(1)] set_selection_names [OF assms(2)]
    by (simp add: has_section_def)
  from add_credential_sections_duplicate [OF assms(4) this assms(6)]
  have "append_credentials c2 additional_content =
          Inl (DuplicateSectionError (section_name_of section))"
    by (simp add: append_credentials_def assms(3))
  with assms(1,2) show ?thesis by (simp add: new_config_file_def)
qed

text \<open>
  C10. The appending step is partial. Where it succeeds, every block has a second and a
  third line, each with exactly one \<open>=\<close>. And there is a credential text, that of a
  secret whose \<open>api_key\<close> ends in \<open>=\<close>, on which the unpacking of the split raises
  \<open>ValueError\<close>, so that \<open>new_config_file\<close> returns the error and writes nothing.
\<close>

theorem credentials_need_one_equals:
  assumes "append_credentials cfg additional_content = Inr cfg'"
    and "section \<in> set (butlast (split_str ''\<newline>\<newline>'' additional_content))"
  shows "2 < length (split_str ''\<newline>'' section) \<and>
         count_list (split_str ''\<newline>'' section ! 1) CHR ''='' = 1 \<and>
         count_list (split_str ''\<newline>'' section ! 2) CHR ''='' = 1 \<and>
         new_config_file sample_files ''cfg/daily/era5_pl.cfg'' ''date''
           (credential_block 0 ''https://cds.example/api'' ''dG9rZW4='')
           \<lparr>first_day = \<lparr>year = 2024, month = 3, day = 4\<rparr>,
            last_day = \<lparr>year = 2024, month = 3, day = 4\<rparr>,
            sl_year = ''2024'', sl_month = ''03'', year_wise_date = False\<rparr> None
         = Inl ValueError"
proof -
  have "new_config_file sample_files ''cfg/daily/era5_pl.cfg'' ''date''
           (credential_block 0 ''https://cds.example/api'' ''dG9rZW4='')
           \<lparr>first_day = \<lparr>year = 2024, month = 3, day = 4\<rparr>,
            last_day = \<lparr>year = 2024, month = 3, day = 4\<rparr>,
            sl_year = ''2024'', sl_month = ''03'', year_wise_date = False\<rparr> None
         = Inl ValueError"
    (is "?run = _")
  proof -
    have "map_sum id (\<lambda>fs. ()) ?run = Inl ValueError" by code_simp
    then show ?thesis by (cases ?run) simp_all
  qed
  with add_credential_sections_count [OF assms(1) [unfolded append_credentials_def] assms(2)]
  show ?thesis by simp
qed

lemma well_formed_clean:
  "list_all well_formed secrets \<Longrightarrow> \<forall>s \<in> set secrets. clean (fst s) \<and> clean (snd s)"
  by (simp add: list_all_iff well_formed_def)

lemma butlast_split_credential_text:
  "\<forall>s \<in> set secrets. clean (fst s) \<and> clean (snd s) \<Longrightarrow>
     butlast (split_str ''\<newline>\<newline>'' (credential_text count secrets)) = segments count secrets"
  by (simp add: split_credential_text)

lemma append_credential_text:
  assumes "list_all well_formed secrets"
    and "\<forall>i < length secrets. \<not> has_section cfg (license_section i)"
  shows "append_credentials cfg (credential_text 0 secrets) =
           Inr (cfg\<lparr>sections := sections cfg @ credential_sections 0 secrets\<rparr>)"
  using add_credential_sections_blocks [OF assms(1), of cfg 0] assms(2)
    butlast_split_credential_text [OF well_formed_clean [OF assms(1)], of 0]
  by (simp add: append_credentials_def)

text \<open>
  C5, as the code has it. Let the \<open>N\<close> environment variables that match the pattern
  resolve to secrets whose values hold no newline and no \<open>=\<close>, and let the
  configuration have none of the sections \<open>parameters.api0\<close> ... \<open>parameters.api(N-1)\<close>.
  Then the generated text splits on \<open>\n\n\<close> into \<open>N + 1\<close> segments, the last one
  empty; segment \<open>i\<close> has the three lines \<open>parameters.api<i>\<close>, \<open>api_url=...\<close> (after
  twelve spaces) and \<open>api_key=...\<close>; and appending the text succeeds and adds exactly
  \<open>N\<close> sections, in order, after the existing ones.
\<close>

theorem generated_credentials:
  assumes "list_all2 (resolves gs) (get_api_keys environ) secrets"
    and "list_all well_formed secrets"
    and "\<forall>i < length secrets. \<not> has_section cfg (license_section i)"
  shows "generate_additional_content gs environ = Inr (credential_text 0 secrets) \<and>
         length (split_str ''\<newline>\<newline>'' (credential_text 0 secrets)) =
           length (get_api_keys environ) + 1 \<and>
         last (split_str ''\<newline>\<newline>'' (credential_text 0 secrets)) = [] \<and>
         (\<forall>i < length (get_api_keys environ).
            split_str ''\<newline>'' (split_str ''\<newline>\<newline>'' (credential_text 0 secrets) ! i) =
              [''parameters.api'' @ str_nat i,
               ''            api_url='' @ fst (secrets ! i),
               ''api_key='' @ snd (secrets ! i)]) \<and>
         append_credentials cfg (credential_text 0 secrets) =
           Inr (cfg\<lparr>sections := sections cfg @ credential_sections 0 secrets\<rparr>) \<and>
         length (credential_sections 0 secrets) = length (get_api_keys environ)"
proof -
  from assms(1) have len: "length (get_api_keys environ) = length secrets"
    by (rule list_all2_lengthD)
  have cl: "\<forall>s \<in> set secrets. clean (fst s) \<and> clean (snd s)"
    by (rule well_formed_clean [OF assms(2)])
  have gen: "generate_additional_content gs environ = Inr (credential_text 0 secrets)"
    using generate_from_resolved [OF assms(1), of 0 "[]"]
    by (simp add: generate_additional_content_def)
  have split: "split_str ''\<newline>\<newline>'' (credential_text 0 secrets) = segments 0 secrets @ [[]]"
    by (rule split_credential_text [OF cl])
  have blocks: "\<forall>i < length (get_api_keys environ).
            split_str ''\<newline>'' (split_str ''\<newline>\<newline>'' (credential_text 0 secrets) ! i) =
              [''parameters.api'' @ str_nat i,
               ''            api_url='' @ fst (secrets ! i),
               ''api_key='' @ snd (secrets ! i)]"
  proof (intro allI impI)
    fix i assume "i < length (get_api_keys environ)"
    with len have i: "i < length secrets" by simp
    then have "secrets ! i \<in> set secrets" by simp
    with cl have "clean (fst (secrets ! i))" "clean (snd (secrets ! i))" by auto
    from split_block_segment [OF this, of i] i
    show "split_str ''\<newline>'' (split_str ''\<newline>\<newline>'' (credential_text 0 secrets) ! i) =
              [''parameters.api'' @ str_nat i,
               ''            api_url='' @ fst (secrets ! i),
               ''api_key='' @ snd (secrets ! i)]"
      by (simp add: split nth_append length_segments nth_segments license_section_def)
  qed
  show ?thesis
    using gen blocks append_credential_text [OF assms(2,3)]
    by (simp add: split length_segments len length_credential_sections)
qed

lemma sample_resolved:
  "list_all2 (resolves sample_secret_manager) (get_api_keys sample_environ) sample_secrets"
  by (simp add: get_api_keys_def sample_environ_def api_key_pattern_match_def is_digit_def
      sample_secrets_def resolves_def sample_secret_manager_def)

lemma sample_well_formed: "list_all well_formed sample_secrets"
  by (simp add: sample_secrets_def well_formed_def clean_def no_equals_def)

lemma sample_fresh: "\<forall>i < length sample_secrets. \<not> has_section sample_config (license_section i)"
  by (simp add: sample_secrets_def has_section_def sample_config_def license_section_def)

theorem generated_credentials_witness:
  "generate_additional_content sample_secret_manager sample_environ =
     Inr (credential_text 0 sample_secrets) \<and>
   length (split_str ''\<newline>\<newline>'' (credential_text 0 sample_secrets)) = 3 \<and>
   length (sections sample_config) = 2 \<and>
   map_sum id (\<lambda>c. length (sections c))
     (append_credentials sample_config (credential_text 0 sample_secrets)) = Inr 4"
  using generated_credentials [OF sample_resolved sample_well_formed sample_fresh]
  by (simp add: sample_secrets_def sample_config_def get_api_keys_def sample_environ_def
      api_key_pattern_match_def is_digit_def)

lemma padded_keys: "get_api_keys padded_environ = [''projects/p/secrets/padded'']"
  by (simp add: get_api_keys_def padded_environ_def api_key_pattern_match_def is_digit_def)

lemma padded_generate:
  "generate_additional_content padded_secret_manager padded_environ =
     Inr (credential_block 0 ''https://cds.example/api'' ''dG9rZW4='')"
  by (simp add: generate_additional_content_def padded_keys padded_secret_manager_def
      dict_lookup_def)

lemma padded_append:
  "append_credentials sample_config (credential_block 0 ''https://cds.example/api'' ''dG9rZW4='')
     = Inl ValueError"
  by code_simp

text \<open>
  Without the condition on the values the last part fails: one matching variable whose
  secret has the \<open>api_key\<close> \<open>dG9rZW4=\<close> gives a text, and appending it raises
  \<open>ValueError\<close> and adds no section.
\<close>

theorem generated_credentials_counterexample:
  "length (get_api_keys padded_environ) = 1 \<and>
   generate_additional_content padded_secret_manager padded_environ =
     Inr (credential_block 0 ''https://cds.example/api'' ''dG9rZW4='') \<and>
   append_credentials sample_config (credential_block 0 ''https://cds.example/api'' ''dG9rZW4='')
     = Inl ValueError"
  by (simp add: padded_keys padded_generate padded_append)

lemma sample_block_name:
  "section_name_of (block_segment 0 ''https://cds.example/api'' ''1:abc'') = ''parameters.api0''"
  by (simp add: section_name_of_block clean_def license_section_def str_nat_digit digit_char_def)

lemma stale_selection:
  "set_selection stale_config ''date'' sample_args =
     Inr (stale_config\<lparr>sections :=
            dict_set ''selection'' [(''date'', ''2024-03-04/to/2024-03-04'')]
              (sections stale_config)\<rparr>)"
  by code_simp

theorem duplicate_section_aborts_witness:
  "new_config_file (\<lambda>path. Some stale_config) ''cfg/daily/era5_pl.cfg'' ''date''
     (credential_block 0 ''https://cds.example/api'' ''1:abc'') sample_args None =
     Inl (DuplicateSectionError ''parameters.api0'')"
proof -
  have split: "butlast (split_str ''\<newline>\<newline>''
                 (credential_block 0 ''https://cds.example/api'' ''1:abc'')) =
               [] @ block_segment 0 ''https://cds.example/api'' ''1:abc'' # []"
    using butlast_split_credential_text
      [of "[(''https://cds.example/api'', ''1:abc'')]" 0]
    by (simp add: clean_def)
  have "new_config_file (\<lambda>path. Some stale_config) ''cfg/daily/era5_pl.cfg'' ''date''
     (credential_block 0 ''https://cds.example/api'' ''1:abc'') sample_args None =
     Inl (DuplicateSectionError
            (section_name_of (block_segment 0 ''https://cds.example/api'' ''1:abc'')))"
  proof (rule duplicate_section_aborts [OF _ stale_selection split])
    show "set_target_path (read_config (\<lambda>path. Some stale_config) ''cfg/daily/era5_pl.cfg'') None
            = Inr stale_config"
      by (simp add: set_target_path_def read_config_def)
    show "add_credential_sections
            (stale_config\<lparr>sections :=
               dict_set ''selection'' [(''date'', ''2024-03-04/to/2024-03-04'')]
                 (sections stale_config)\<rparr>) [] =
          Inr (stale_config\<lparr>sections :=
               dict_set ''selection'' [(''date'', ''2024-03-04/to/2024-03-04'')]
                 (sections stale_config)\<rparr>)"
      by simp
    show "has_section (read_config (\<lambda>path. Some stale_config) ''cfg/daily/era5_pl.cfg'')
            (section_name_of (block_segment 0 ''https://cds.example/api'' ''1:abc''))"
      by (simp add: sample_block_name read_config_def has_section_def stale_config_def)
    show "section_name_of (block_segment 0 ''https://cds.example/api'' ''1:abc'') \<noteq>
            default_section"
      by (simp add: sample_block_name default_section_def)
  qed
  then show ?thesis by (simp add: sample_block_name)
qed

theorem credentials_need_one_equals_witness:
  "count_list (split_str ''\<newline>'' (block_segment 1 ''https://cds.example/api'' ''2:def'') ! 1)
     CHR ''='' = 1 \<and>
   count_list (split_str ''\<newline>'' (block_segment 1 ''https://cds.example/api'' ''2:def'') ! 2)
     CHR ''='' = 1"
proof -
  have ok: "append_credentials sample_config (credential_text 0 sample_secrets) =
          Inr (sample_config\<lparr>sections := sections sample_config @
                 credential_sections 0 sample_secrets\<rparr>)"
    by (rule append_credential_text [OF sample_well_formed sample_fresh])
  have mem: "block_segment 1 ''https://cds.example/api'' ''2:def'' \<in>
          set (butlast (split_str ''\<newline>\<newline>'' (credential_text 0 sample_secrets)))"
    using butlast_split_credential_text [OF well_formed_clean [OF sample_well_formed], of 0]
    by (simp add: sample_secrets_def)
  from credentials_need_one_equals [OF ok mem] show ?thesis by simp
qed

subsection \<open>Injecting and stripping\<close>















end
